theory Spec2Isabelle
  imports Complex_Main
begin

text \<open>
  The weather client of the constellation tracker: \<open>fetchWeatherData\<close>, which looks up the
  weather of one position, and \<open>fetchWeatherForPositions\<close>, which looks up a list of
  positions in batches. The sources hold two revisions of the module
  \<open>services/weatherApi.ts\<close>. The later one keeps a cache with a time to live of five minutes,
  treats status 429 apart and deduplicates the positions by their rounded coordinates; its
  functions carry the names of the source here. The earlier one has none of these; its
  functions carry the suffix \<open>_v1\<close>. The upstream, the clock and the log of requests are
  explicit: a function takes the world and returns the new one.
\<close>

section \<open>JavaScript values\<close>

text \<open>
  The weather client is TypeScript running on JavaScript values. A number is modelled by the
  exact real value of a finite double; \<open>NaN\<close> and the infinities are not represented (they
  cannot be written in JSON, and the position source filters coordinates to the ranges
  of degrees). The parsed body of a response (the value of \<open>response.json()\<close>) is a
  \<open>json\<close> value; an object is the association list of its own properties, read with
  \<open>map_of\<close>. \<open>undefined\<close> is the \<open>None\<close> of a property lookup.
\<close>

datatype json =
    JNull
  | JBool bool
  | JNum real
  | JStr string
  | JArr "json list"
  | JObj "(string \<times> json) list"

text \<open>ToBoolean: \<open>null\<close>, \<open>false\<close>, \<open>0\<close> and the empty string are falsy.\<close>

fun truthy :: "json \<Rightarrow> bool" where
  "truthy JNull = False"
| "truthy (JBool b) = b"
| "truthy (JNum x) = (x \<noteq> 0)"
| "truthy (JStr s) = (s \<noteq> [])"
| "truthy (JArr xs) = True"
| "truthy (JObj kvs) = True"

text \<open>
  Reading a property \<open>v.name\<close>, for the names the client reads (\<open>current\<close>,
  \<open>temperature_2m\<close>, ...): an object yields its own property, a boolean, number, string or
  array has no such property and yields \<open>undefined\<close>. Reading a property of \<open>null\<close>
  throws a TypeError, which is written out where the client reads \<open>data.current\<close>.
\<close>

fun getProperty :: "json \<Rightarrow> string \<Rightarrow> json option" where
  "getProperty (JObj kvs) name = map_of kvs name"
| "getProperty v name = None"

text \<open>The expression \<open>v || 0\<close>.\<close>

definition orZero :: "json option \<Rightarrow> json" where
  "orZero v = (case v of None \<Rightarrow> JNum 0 | Some j \<Rightarrow> if truthy j then j else JNum 0)"

subsection \<open>\<open>Number.prototype.toFixed(2)\<close>\<close>

definition digit :: "nat \<Rightarrow> char" where
  "digit d = ''0123456789'' ! d"

function decimal :: "nat \<Rightarrow> string" where
  "decimal n = (if n < 10 then [digit n] else decimal (n div 10) @ [digit (n mod 10)])"
  by pat_completeness auto
termination
  by (relation "measure id") auto

text \<open>
  \<open>x.toFixed(2)\<close> for a finite \<open>x\<close> of magnitude below \<open>10^21\<close> (beyond it JavaScript
  switches to exponent notation): the sign, then the integer \<open>n\<close> nearest to \<open>100 |x|\<close>,
  the larger one on a tie, written with two digits after the point.
\<close>

definition toFixed2 :: "real \<Rightarrow> string" where
  "toFixed2 x =
     (let n = nat \<lfloor>\<bar>x\<bar> * 100 + 1 / 2\<rfloor>;
          m = decimal (n div 100) @ ''.'' @ [digit (n mod 100 div 10), digit (n mod 10)]
      in if x < 0 then ''-'' @ m else m)"

section \<open>Data model\<close>

record position =
  latitude :: real
  longitude :: real

text \<open>
  \<open>WeatherData\<close> declares its weather fields as \<open>number\<close>, but they are filled from the
  untyped payload, so at run time they hold whatever value the payload had: they are
  \<open>json\<close> here. \<open>timestamp\<close> is optional in the interface.
\<close>

record WeatherData = position +
  temperature :: json
  windSpeed :: json
  windDirection :: json
  humidity :: json
  pressure :: json
  timestamp :: "nat option"

record cache_entry =
  data :: WeatherData
  expires :: nat

text \<open>
  What \<open>await fetch(url, {signal})\<close> followed by \<open>response.json()\<close> can yield: the fetch
  rejects (network failure), the abort signal fires after the timeout, or a response
  arrives with a status and a body; the body is \<open>None\<close> when \<open>response.json()\<close> rejects.
\<close>

datatype fetch_outcome =
    NetworkError
  | AbortError
  | Response nat "json option"

text \<open>
  The upstream is a parameter: asked the \<open>i\<close>-th request of the run for a latitude and a
  longitude, it gives the outcome and the delay in milliseconds after which the promise
  settles.
\<close>

type_synonym upstream = "nat \<Rightarrow> real \<Rightarrow> real \<Rightarrow> fetch_outcome \<times> nat"

text \<open>
  The module state and its environment: the module-level \<open>weatherCache\<close>, the clock read by
  \<open>Date.now()\<close> (milliseconds), and the log of the upstream requests issued so far.
\<close>

record world =
  weatherCache :: "string \<rightharpoonup> cache_entry"
  now :: nat
  requests :: "(real \<times> real) list"

definition CACHE_TTL :: nat where
  "CACHE_TTL = 5 * 60 * 1000"

text \<open>The template \<open>`${latitude.toFixed(2)},${longitude.toFixed(2)}`\<close>.\<close>

definition cacheKey :: "real \<Rightarrow> real \<Rightarrow> string" where
  "cacheKey lat lon = toFixed2 lat @ '','' @ toFixed2 lon"

definition keyOf :: "'a position_scheme \<Rightarrow> string" where
  "keyOf pos = cacheKey (latitude pos) (longitude pos)"

text \<open>\<open>response.ok\<close>.\<close>

definition ok :: "nat \<Rightarrow> bool" where
  "ok status = (200 \<le> status \<and> status \<le> 299)"

section \<open>The single-position fetch\<close>

text \<open>The object literal built from \<open>current\<close>.\<close>

definition parseWeather :: "real \<Rightarrow> real \<Rightarrow> json \<Rightarrow> nat option \<Rightarrow> WeatherData" where
  "parseWeather lat lon current ts =
     \<lparr> latitude = lat, longitude = lon,
       temperature = orZero (getProperty current ''temperature_2m''),
       windSpeed = orZero (getProperty current ''wind_speed_10m''),
       windDirection = orZero (getProperty current ''wind_direction_10m''),
       humidity = orZero (getProperty current ''relative_humidity_2m''),
       pressure = orZero (getProperty current ''surface_pressure''),
       timestamp = ts \<rparr>"

text \<open>
  \<open>fetchWeatherData\<close> of the caching revision, after \<open>await fetch\<close>: the continuation runs at
  time \<open>t\<close> on the outcome of the request. Every exception of the \<open>try\<close> block ends in
  \<open>return null\<close>. Both \<open>Date.now()\<close> of a successful fetch read the same instant \<open>t\<close>.
\<close>

definition onResponse ::
  "real \<Rightarrow> real \<Rightarrow> nat \<Rightarrow> fetch_outcome \<Rightarrow> (string \<rightharpoonup> cache_entry)
     \<Rightarrow> WeatherData option \<times> (string \<rightharpoonup> cache_entry)" where
  "onResponse lat lon t out cache =
     (case out of
        NetworkError \<Rightarrow> (None, cache)
      | AbortError \<Rightarrow> (None, cache)
      | Response status body \<Rightarrow>
          if status = 429 then (None, cache)
          else if \<not> ok status then (None, cache)
          else (case body of
                  None \<Rightarrow> (None, cache)
                | Some d \<Rightarrow>
                    if d = JNull then (None, cache)
                    else (case getProperty d ''current'' of
                            None \<Rightarrow> (None, cache)
                          | Some current \<Rightarrow>
                              if \<not> truthy current then (None, cache)
                              else (let weather = parseWeather lat lon current (Some t)
                                    in (Some weather,
                                        cache(cacheKey lat lon \<mapsto>
                                          \<lparr> data = weather, expires = t + CACHE_TTL \<rparr>))))))"

text \<open>The cache check \<open>cached && cached.expires > Date.now()\<close>.\<close>

definition cacheCheck :: "(string \<rightharpoonup> cache_entry) \<Rightarrow> nat \<Rightarrow> string \<Rightarrow> WeatherData option" where
  "cacheCheck cache t k =
     (case cache k of
        None \<Rightarrow> None
      | Some cached \<Rightarrow> if expires cached > t then Some (data cached) else None)"

text \<open>
  A call of \<open>fetchWeatherData\<close> whose synchronous prefix (the cache check and the issue of
  the request) ran at time \<open>t0\<close> on the cache \<open>c0\<close>, and whose continuation runs when the
  request settles, on the cache of that moment. The clock of the world is moved to the
  latest settlement seen.
\<close>

definition fetchWeatherDataAt ::
  "upstream \<Rightarrow> (string \<rightharpoonup> cache_entry) \<Rightarrow> nat \<Rightarrow> real \<Rightarrow> real \<Rightarrow> world
     \<Rightarrow> WeatherData option \<times> world" where
  "fetchWeatherDataAt net c0 t0 lat lon w =
     (case cacheCheck c0 t0 (cacheKey lat lon) of
        Some d \<Rightarrow> (Some d, w)
      | None \<Rightarrow>
          (let (out, delay) = net (length (requests w)) lat lon;
               (r, cache') = onResponse lat lon (t0 + delay) out (weatherCache w)
           in (r, \<lparr> weatherCache = cache', now = max (now w) (t0 + delay),
                    requests = requests w @ [(lat, lon)] \<rparr>)))"

text \<open>A call awaited on its own: the prefix runs now, on the current cache.\<close>

definition fetchWeatherData :: "upstream \<Rightarrow> real \<Rightarrow> real \<Rightarrow> world \<Rightarrow> WeatherData option \<times> world" where
  "fetchWeatherData net lat lon w = fetchWeatherDataAt net (weatherCache w) (now w) lat lon w"

text \<open>
  \<open>fetchWeatherData\<close> of the earlier revision: no cache, no timestamp, no separate branch
  for status 429.
\<close>

definition onResponse_v1 :: "real \<Rightarrow> real \<Rightarrow> fetch_outcome \<Rightarrow> WeatherData option" where
  "onResponse_v1 lat lon out =
     (case out of
        NetworkError \<Rightarrow> None
      | AbortError \<Rightarrow> None
      | Response status body \<Rightarrow>
          if \<not> ok status then None
          else (case body of
                  None \<Rightarrow> None
                | Some d \<Rightarrow>
                    if d = JNull then None
                    else (case getProperty d ''current'' of
                            None \<Rightarrow> None
                          | Some current \<Rightarrow>
                              if \<not> truthy current then None
                              else Some (parseWeather lat lon current None))))"

definition fetchWeatherDataAt_v1 ::
  "upstream \<Rightarrow> nat \<Rightarrow> real \<Rightarrow> real \<Rightarrow> world \<Rightarrow> WeatherData option \<times> world" where
  "fetchWeatherDataAt_v1 net t0 lat lon w =
     (let (out, delay) = net (length (requests w)) lat lon
      in (onResponse_v1 lat lon out,
          w\<lparr> now := max (now w) (t0 + delay), requests := requests w @ [(lat, lon)] \<rparr>))"

definition fetchWeatherData_v1 :: "upstream \<Rightarrow> real \<Rightarrow> real \<Rightarrow> world \<Rightarrow> WeatherData option \<times> world" where
  "fetchWeatherData_v1 net lat lon w = fetchWeatherDataAt_v1 net (now w) lat lon w"

section \<open>The batch fetcher\<close>

text \<open>
  The value of one settled promise of a batch: \<open>{key, weather}\<close> or \<open>null\<close>. The promise
  cannot reject, since \<open>fetchWeatherData\<close> catches every exception.
\<close>

type_synonym settled_value = "(string \<times> WeatherData) option"

text \<open>
  \<open>Promise.allSettled(batch.map(async (pos) => ...))\<close> in the caching revision. The
  synchronous prefix of every call runs before any request settles, so each cache check
  reads the cache \<open>c0\<close> and the clock \<open>t0\<close> of the start of the batch; the continuations
  then write the cache as the requests settle. They are run here in the order of the batch:
  the positions of a batch are deduplicated, so the continuations write entries of
  different keys and their order does not change the cache.
\<close>

fun settleAll ::
  "upstream \<Rightarrow> (string \<rightharpoonup> cache_entry) \<Rightarrow> nat \<Rightarrow> position list \<Rightarrow> world
     \<Rightarrow> settled_value list \<times> world" where
  "settleAll net c0 t0 [] w = ([], w)"
| "settleAll net c0 t0 (pos # batch) w =
     (let (weather, w1) = fetchWeatherDataAt net c0 t0 (latitude pos) (longitude pos) w;
          (results, w2) = settleAll net c0 t0 batch w1
      in (map_option (Pair (keyOf pos)) weather # results, w2))"

fun settleAll_v1 ::
  "upstream \<Rightarrow> nat \<Rightarrow> position list \<Rightarrow> world \<Rightarrow> settled_value list \<times> world" where
  "settleAll_v1 net t0 [] w = ([], w)"
| "settleAll_v1 net t0 (pos # batch) w =
     (let (weather, w1) = fetchWeatherDataAt_v1 net t0 (latitude pos) (longitude pos) w;
          (results, w2) = settleAll_v1 net t0 batch w1
      in (map_option (Pair (keyOf pos)) weather # results, w2))"

text \<open>
  What a run of the batch fetcher has produced so far: the \<open>weatherMap\<close>, the arguments of
  the successive calls of \<open>onBatchComplete\<close>, the values of the settled promises of all
  batches in order, and the world.
\<close>

record run =
  weatherMap :: "string \<rightharpoonup> WeatherData"
  callbacks :: "(string \<rightharpoonup> WeatherData) list"
  settled :: "settled_value list"
  state :: world

text \<open>The \<open>results.forEach\<close> that stores every fulfilled, non-null value into a map.\<close>

definition collect :: "settled_value list \<Rightarrow> (string \<rightharpoonup> WeatherData) \<Rightarrow> (string \<rightharpoonup> WeatherData)" where
  "collect results m =
     fold (\<lambda>r m. case r of None \<Rightarrow> m | Some (k, weather) \<Rightarrow> m(k \<mapsto> weather)) results m"

text \<open>
  The rest of the loop body once the batch has settled; \<open>cb\<close> tells whether
  \<open>onBatchComplete\<close> was supplied.
\<close>

definition completeBatch :: "bool \<Rightarrow> settled_value list \<Rightarrow> world \<Rightarrow> run \<Rightarrow> run" where
  "completeBatch cb results w s =
     \<lparr> weatherMap = collect results (weatherMap s),
       callbacks = (if cb then callbacks s @ [collect results Map.empty] else callbacks s),
       settled = settled s @ results,
       state = w \<rparr>"

text \<open>
  The \<open>for (let i = 0; i < deduplicated.length; i += maxConcurrent)\<close> loop.
  \<open>maxConcurrent\<close> is a natural number; with \<open>maxConcurrent = 0\<close> and a non-empty list the
  loop never ends, which is the value \<open>None\<close>.
\<close>

partial_function (option) batchLoop ::
  "upstream \<Rightarrow> nat \<Rightarrow> bool \<Rightarrow> position list \<Rightarrow> nat \<Rightarrow> run \<Rightarrow> run option" where
  "batchLoop net maxConcurrent cb deduplicated i s =
     (if i < length deduplicated then
        (let batch = take maxConcurrent (drop i deduplicated);
             (results, w) = settleAll net (weatherCache (state s)) (now (state s)) batch (state s)
         in batchLoop net maxConcurrent cb deduplicated (i + maxConcurrent)
              (completeBatch cb results w s))
      else Some s)"

text \<open>
  The deduplication: \<open>uniquePositions\<close> is a \<open>Map\<close> read in insertion order, an association
  list here.
\<close>

definition addUnique :: "position \<Rightarrow> (string \<times> position) list \<Rightarrow> (string \<times> position) list" where
  "addUnique pos u = (if keyOf pos \<in> set (map fst u) then u else u @ [(keyOf pos, pos)])"

definition uniquePositions :: "position list \<Rightarrow> (string \<times> position) list" where
  "uniquePositions positions = fold addUnique positions []"

definition deduplicated :: "position list \<Rightarrow> position list" where
  "deduplicated positions = map snd (uniquePositions positions)"

text \<open>The final \<open>positions.forEach\<close> that maps the results back to the original positions.\<close>

definition finalMap :: "position list \<Rightarrow> (string \<rightharpoonup> WeatherData) \<Rightarrow> (string \<rightharpoonup> WeatherData)" where
  "finalMap positions wm =
     fold (\<lambda>pos m. case wm (keyOf pos) of None \<Rightarrow> m | Some weather \<Rightarrow> m(keyOf pos \<mapsto> weather))
       positions Map.empty"

definition start :: "world \<Rightarrow> run" where
  "start w = \<lparr> weatherMap = Map.empty, callbacks = [], settled = [], state = w \<rparr>"

definition fetchWeatherForPositions ::
  "upstream \<Rightarrow> position list \<Rightarrow> nat \<Rightarrow> bool \<Rightarrow> world \<Rightarrow> run option" where
  "fetchWeatherForPositions net positions maxConcurrent cb w =
     (case batchLoop net maxConcurrent cb (deduplicated positions) 0 (start w) of
        None \<Rightarrow> None
      | Some s \<Rightarrow> Some (s\<lparr> weatherMap := finalMap positions (weatherMap s) \<rparr>))"

text \<open>
  The batch fetcher of the earlier revision: no deduplication, no re-expansion, and a pause
  of 50 ms between two batches.
\<close>

definition pause :: "nat \<Rightarrow> run \<Rightarrow> run" where
  "pause ms s = s\<lparr> state := (state s)\<lparr> now := now (state s) + ms \<rparr> \<rparr>"

partial_function (option) batchLoop_v1 ::
  "upstream \<Rightarrow> nat \<Rightarrow> bool \<Rightarrow> position list \<Rightarrow> nat \<Rightarrow> run \<Rightarrow> run option" where
  "batchLoop_v1 net maxConcurrent cb positions i s =
     (if i < length positions then
        (let batch = take maxConcurrent (drop i positions);
             (results, w) = settleAll_v1 net (now (state s)) batch (state s);
             s1 = completeBatch cb results w s;
             s2 = (if i + maxConcurrent < length positions then pause 50 s1 else s1)
         in batchLoop_v1 net maxConcurrent cb positions (i + maxConcurrent) s2)
      else Some s)"

definition fetchWeatherForPositions_v1 ::
  "upstream \<Rightarrow> position list \<Rightarrow> nat \<Rightarrow> bool \<Rightarrow> world \<Rightarrow> run option" where
  "fetchWeatherForPositions_v1 net positions maxConcurrent cb w =
     batchLoop_v1 net maxConcurrent cb positions 0 (start w)"

section \<open>Notions used in the statements and proofs\<close>

text \<open>A fetch that times out, fails on the network, or receives a non-success status.\<close>

definition failed :: "fetch_outcome \<Rightarrow> bool" where
  "failed out =
     (case out of NetworkError \<Rightarrow> True | AbortError \<Rightarrow> True | Response status body \<Rightarrow> \<not> ok status)"

text \<open>An upstream that fails every request for a position of key \<open>k\<close>.\<close>

definition failing :: "upstream \<Rightarrow> string \<Rightarrow> bool" where
  "failing net k = (\<forall>i lat lon. cacheKey lat lon = k \<longrightarrow> failed (fst (net i lat lon)))"

text \<open>
  A good answer: a success status and a parsed body with a truthy \<open>current\<close>. An upstream
  is succeeding for the key \<open>k\<close> when it gives a good answer to every request for a
  position of key \<open>k\<close>.
\<close>

definition good :: "fetch_outcome \<Rightarrow> bool" where
  "good out =
     (case out of
        Response status body \<Rightarrow>
          ok status \<and>
          (case body of
             None \<Rightarrow> False
           | Some d \<Rightarrow> (case getProperty d ''current'' of None \<Rightarrow> False | Some current \<Rightarrow> truthy current))
      | _ \<Rightarrow> False)"

definition succeeding :: "upstream \<Rightarrow> string \<Rightarrow> bool" where
  "succeeding net k = (\<forall>i lat lon. cacheKey lat lon = k \<longrightarrow> good (fst (net i lat lon)))"

text \<open>The coordinates of a position, as the request log holds them.\<close>

definition coords :: "position \<Rightarrow> real \<times> real" where
  "coords pos = (latitude pos, longitude pos)"



text \<open>The non-null values among settled promises.\<close>

fun fulfilled :: "settled_value list \<Rightarrow> (string \<times> WeatherData) list" where
  "fulfilled [] = []"
| "fulfilled (None # rs) = fulfilled rs"
| "fulfilled (Some x # rs) = x # fulfilled rs"

text \<open>The union of a list of maps, a later map winning on a shared key.\<close>

definition unionMaps :: "('k \<rightharpoonup> 'v) list \<Rightarrow> ('k \<rightharpoonup> 'v)" where
  "unionMaps ms = fold (\<lambda>m u. u ++ m) ms Map.empty"

text \<open>The payload properties read by the client, each with the field it fills.\<close>

definition weatherFields :: "WeatherData \<Rightarrow> (string \<times> json) list" where
  "weatherFields d =
     [(''temperature_2m'', temperature d), (''wind_speed_10m'', windSpeed d),
      (''wind_direction_10m'', windDirection d), (''relative_humidity_2m'', humidity d),
      (''surface_pressure'', pressure d)]"

text \<open>The successive slices \<open>slice(i, i + m)\<close> that the loop takes from index \<open>i\<close> on.\<close>

function slices :: "nat \<Rightarrow> 'a list \<Rightarrow> nat \<Rightarrow> 'a list list" where
  "slices m xs i = (if 0 < m \<and> i < length xs then take m (drop i xs) # slices m xs (i + m) else [])"
  by pat_completeness auto
termination
  by (relation "measure (\<lambda>(m, xs, i). length xs - i)") auto

declare slices.simps [simp del]

text \<open>
  The loops, unrolled over a given list of batches: \<open>settle\<close> is what one iteration does to
  its batch, \<open>settleBatches\<close> runs the iterations in order, with the pause of \<open>ms\<close>
  milliseconds between two batches, and \<open>assemble\<close> is the run that results.
\<close>

definition settle :: "upstream \<Rightarrow> position list \<Rightarrow> world \<Rightarrow> settled_value list \<times> world" where
  "settle net batch w = settleAll net (weatherCache w) (now w) batch w"

definition settle_v1 :: "upstream \<Rightarrow> position list \<Rightarrow> world \<Rightarrow> settled_value list \<times> world" where
  "settle_v1 net batch w = settleAll_v1 net (now w) batch w"

fun settleBatches ::
  "(position list \<Rightarrow> world \<Rightarrow> settled_value list \<times> world) \<Rightarrow> nat \<Rightarrow> position list list \<Rightarrow> world
     \<Rightarrow> settled_value list list \<times> world" where
  "settleBatches f ms [] w = ([], w)"
| "settleBatches f ms (batch # rest) w =
     (let (results, w1) = f batch w;
          (rss, w2) = settleBatches f ms rest (if rest \<noteq> [] then w1\<lparr> now := now w1 + ms \<rparr> else w1)
      in (results # rss, w2))"

definition assemble :: "bool \<Rightarrow> settled_value list list \<Rightarrow> world \<Rightarrow> run \<Rightarrow> run" where
  "assemble cb rss w s =
     \<lparr> weatherMap = collect (concat rss) (weatherMap s),
       callbacks = (if cb then callbacks s @ map (\<lambda>rs. collect rs Map.empty) rss else callbacks s),
       settled = settled s @ concat rss,
       state = w \<rparr>"

text \<open>
  The settled values \<open>rs\<close> answer the batch \<open>b\<close>: one value per position, and no key more
  often among the fulfilled values than among the positions.
\<close>

definition answers :: "settled_value list \<Rightarrow> position list \<Rightarrow> bool" where
  "answers rs b =
     (length rs = length b
      \<and> (\<forall>k. count_list (map fst (fulfilled rs)) k \<le> count_list (map keyOf b) k))"

section \<open>Example inputs\<close>

definition emptyWorld :: world where
  "emptyWorld = \<lparr> weatherCache = Map.empty, now = 1000, requests = [] \<rparr>"

text \<open>
  A partially populated payload: a string where a number is expected, a \<open>null\<close>, an empty
  string, and no pressure at all.
\<close>

definition partialCurrent :: json where
  "partialCurrent =
     JObj [(''temperature_2m'', JStr ''warm''), (''wind_speed_10m'', JNum 12),
           (''wind_direction_10m'', JNull), (''relative_humidity_2m'', JStr [])]"

definition partialPayload :: json where
  "partialPayload = JObj [(''current'', partialCurrent)]"

definition partialNet :: upstream where
  "partialNet i lat lon = (Response 200 (Some partialPayload), 120)"

definition partialObs :: "real \<Rightarrow> real \<Rightarrow> nat option \<Rightarrow> WeatherData" where
  "partialObs lat lon ts =
     \<lparr> latitude = lat, longitude = lon, temperature = JStr ''warm'', windSpeed = JNum 12,
       windDirection = JNum 0, humidity = JNum 0, pressure = JNum 0, timestamp = ts \<rparr>"

definition partialWorld :: "real \<Rightarrow> real \<Rightarrow> world" where
  "partialWorld lat lon =
     \<lparr> weatherCache =
         [cacheKey lat lon \<mapsto> \<lparr> data = partialObs lat lon (Some 1120), expires = 301120 \<rparr>],
       now = 1120, requests = [(lat, lon)] \<rparr>"

definition cachedWorld :: "nat \<Rightarrow> world" where
  "cachedWorld t =
     \<lparr> weatherCache = [cacheKey 1 2 \<mapsto> \<lparr> data = partialObs 1 2 (Some 700), expires = 5000 \<rparr>],
       now = t, requests = [] \<rparr>"

text \<open>
  Three positions, the first two in the same cell of the 0.01 degree grid, and an upstream
  that times out on that cell.
\<close>

definition nearby :: "position list" where
  "nearby = [\<lparr> latitude = 1, longitude = 2 \<rparr>,
             \<lparr> latitude = 1001 / 1000, longitude = 2001 / 1000 \<rparr>,
             \<lparr> latitude = 3, longitude = 4 \<rparr>]"

definition apart :: "position list" where
  "apart = [\<lparr> latitude = 1, longitude = 2 \<rparr>, \<lparr> latitude = 3, longitude = 4 \<rparr>]"


definition abortNet :: upstream where
  "abortNet i lat lon =
     (if cacheKey lat lon = cacheKey 1 2 then (AbortError, 3000) else partialNet i lat lon)"

section \<open>The single-position fetch: lemmas\<close>

lemma onResponse_None: "onResponse lat lon t out c = (None, c') \<Longrightarrow> c' = c"
  by (auto simp: onResponse_def Let_def split: fetch_outcome.splits if_splits option.splits)

lemma onResponse_Some:
  "onResponse lat lon t out c = (Some d, c') \<Longrightarrow>
     c' = c(cacheKey lat lon \<mapsto> \<lparr> data = d, expires = t + CACHE_TTL \<rparr>)
     \<and> latitude d = lat \<and> longitude d = lon \<and> timestamp d = Some t"
  by (auto simp: onResponse_def Let_def parseWeather_def
      split: fetch_outcome.splits if_splits option.splits)

lemma onResponse_failed: "failed out \<Longrightarrow> onResponse lat lon t out c = (None, c)"
  by (auto simp: onResponse_def failed_def split: fetch_outcome.splits)

lemma fetchAt_hit:
  "cacheCheck c0 t0 (cacheKey lat lon) = Some d \<Longrightarrow>
     fetchWeatherDataAt net c0 t0 lat lon w = (Some d, w)"
  by (simp add: fetchWeatherDataAt_def)

lemma fetchAt_miss:
  "cacheCheck c0 t0 (cacheKey lat lon) = None \<Longrightarrow>
   fetchWeatherDataAt net c0 t0 lat lon w =
     (fst (onResponse lat lon (t0 + snd (net (length (requests w)) lat lon))
             (fst (net (length (requests w)) lat lon)) (weatherCache w)),
      \<lparr> weatherCache = snd (onResponse lat lon (t0 + snd (net (length (requests w)) lat lon))
             (fst (net (length (requests w)) lat lon)) (weatherCache w)),
        now = max (now w) (t0 + snd (net (length (requests w)) lat lon)),
        requests = requests w @ [(lat, lon)] \<rparr>)"
  by (simp add: fetchWeatherDataAt_def split: prod.splits)

lemma rate_limited_not_cached:
  "cacheCheck (weatherCache w) (now w) (cacheKey lat lon) = None \<Longrightarrow>
   fst (net (length (requests w)) lat lon) = Response 429 body \<Longrightarrow>
     fst (fetchWeatherData net lat lon w) = None
   \<and> weatherCache (snd (fetchWeatherData net lat lon w)) = weatherCache w"
  by (simp add: fetchWeatherData_def fetchAt_miss onResponse_def)

lemma partial_fetch:
  "fetchWeatherData partialNet lat lon emptyWorld =
     (Some (partialObs lat lon (Some 1120)), partialWorld lat lon)"
  by (simp add: fetchWeatherData_def fetchWeatherDataAt_def emptyWorld_def partialNet_def
      partialPayload_def partialCurrent_def partialObs_def partialWorld_def cacheCheck_def
      onResponse_def ok_def parseWeather_def orZero_def Let_def CACHE_TTL_def)

lemma partial_fetch_v1:
  "fetchWeatherData_v1 partialNet lat lon emptyWorld =
     (Some (partialObs lat lon None),
      \<lparr> weatherCache = Map.empty, now = 1120, requests = [(lat, lon)] \<rparr>)"
  by (simp add: fetchWeatherData_v1_def fetchWeatherDataAt_v1_def emptyWorld_def partialNet_def
      partialPayload_def partialCurrent_def partialObs_def onResponse_v1_def ok_def
      parseWeather_def orZero_def Let_def)

lemma fetch_miss_coords:
  assumes "cacheCheck (weatherCache w) (now w) (cacheKey lat lon) = None"
    and "fetchWeatherData net lat lon w = (Some obs, w')"
  shows "latitude obs = lat \<and> longitude obs = lon"
proof -
  obtain r c where rc: "onResponse lat lon (now w + snd (net (length (requests w)) lat lon))
      (fst (net (length (requests w)) lat lon)) (weatherCache w) = (r, c)"
    by (cases "onResponse lat lon (now w + snd (net (length (requests w)) lat lon))
      (fst (net (length (requests w)) lat lon)) (weatherCache w)")
  with assms have "r = Some obs"
    by (simp add: fetchWeatherData_def fetchAt_miss)
  with rc show ?thesis by (auto dest: onResponse_Some)
qed

lemma fetch_v1_coords:
  assumes "fetchWeatherData_v1 net lat lon w = (Some obs, w')"
  shows "latitude obs = lat \<and> longitude obs = lon"
  using assms
  by (auto simp: fetchWeatherData_v1_def fetchWeatherDataAt_v1_def onResponse_v1_def
        parseWeather_def split: prod.splits fetch_outcome.splits option.splits if_splits)

section \<open>The single-position fetch: claims\<close>

text \<open>
  C2. If the cache holds an entry for the key of the position, a call of
  \<open>fetchWeatherData\<close> made strictly before \<open>expires\<close> returns the cached observation and
  changes nothing (no upstream request is logged); a call made at or after \<open>expires\<close>
  issues exactly one upstream request, and what it returns is what the same call returns
  on an empty cache: the expired entry is never returned.
\<close>

theorem cache_expiry:
  "weatherCache w (cacheKey lat lon) = Some e \<Longrightarrow>
     (now w < expires e \<longrightarrow> fetchWeatherData net lat lon w = (Some (data e), w))
   \<and> (expires e \<le> now w \<longrightarrow>
        requests (snd (fetchWeatherData net lat lon w)) = requests w @ [(lat, lon)]
      \<and> fst (fetchWeatherData net lat lon w)
          = fst (fetchWeatherData net lat lon (w\<lparr> weatherCache := Map.empty \<rparr>)))"
  apply (auto simp: fetchWeatherData_def fetchAt_miss fetchAt_hit cacheCheck_def)
  apply (auto simp: onResponse_def Let_def split: fetch_outcome.splits option.splits)
  done

theorem cache_expiry_witness:
  "fetchWeatherData partialNet 1 2 (cachedWorld 4999)
     = (Some (partialObs 1 2 (Some 700)), cachedWorld 4999)
   \<and> requests (snd (fetchWeatherData partialNet 1 2 (cachedWorld 5000))) = [(1, 2)]
   \<and> fst (fetchWeatherData partialNet 1 2 (cachedWorld 5000))
       = fst (fetchWeatherData partialNet 1 2 (cachedWorld 5000 \<lparr> weatherCache := Map.empty \<rparr>))"
  using cache_expiry [of "cachedWorld 4999" 1 2 "\<lparr> data = partialObs 1 2 (Some 700), expires = 5000 \<rparr>" partialNet]
        cache_expiry [of "cachedWorld 5000" 1 2 "\<lparr> data = partialObs 1 2 (Some 700), expires = 5000 \<rparr>" partialNet]
  by (simp add: cachedWorld_def)

text \<open>
  C6. A first call of \<open>fetchWeatherData\<close> that goes upstream (no live cache entry) and
  returns an observation \<open>d\<close>, followed by a second call for the same position at any time
  \<open>t\<close> of the TTL window the first call opened: the second call returns the same \<open>d\<close> and
  leaves the world unchanged, whatever the upstream would answer, so the two calls issue
  exactly one request in total.
\<close>

theorem fetch_twice:
  "cacheCheck (weatherCache w) (now w) (cacheKey lat lon) = None \<Longrightarrow>
   fetchWeatherData net lat lon w = (Some d, w1) \<Longrightarrow>
   now w1 \<le> t \<Longrightarrow> t < now w1 + CACHE_TTL \<Longrightarrow>
     fetchWeatherData net' lat lon (w1\<lparr> now := t \<rparr>) = (Some d, w1\<lparr> now := t \<rparr>)
   \<and> requests (w1\<lparr> now := t \<rparr>) = requests w @ [(lat, lon)]"
  apply (simp add: fetchWeatherData_def fetchAt_miss)
  apply (cases "onResponse lat lon (now w + snd (net (length (requests w)) lat lon))
      (fst (net (length (requests w)) lat lon)) (weatherCache w)")
  apply (auto dest!: onResponse_Some simp: fetchAt_hit cacheCheck_def)
  done

theorem fetch_twice_witness:
  "fetchWeatherData (\<lambda>i lat lon. (NetworkError, 0)) 1 2 (partialWorld 1 2 \<lparr> now := 301119 \<rparr>)
     = (Some (partialObs 1 2 (Some 1120)), partialWorld 1 2 \<lparr> now := 301119 \<rparr>)
   \<and> requests (partialWorld 1 2 \<lparr> now := 301119 \<rparr>) = requests emptyWorld @ [(1, 2)]"
  using fetch_twice [of emptyWorld 1 2 partialNet "partialObs 1 2 (Some 1120)" "partialWorld 1 2"
      301119 "\<lambda>i lat lon. (NetworkError, 0)"] partial_fetch [of 1 2]
  by (simp add: emptyWorld_def cacheCheck_def partialWorld_def CACHE_TTL_def)

text \<open>
  C7, as the code has it. On a success status with a truthy \<open>current\<close>, both revisions
  return an observation, and each weather field is zero when the property is missing from
  \<open>current\<close> or holds a falsy value (\<open>null\<close>, \<open>false\<close>, \<open>0\<close>, the empty string), and is the
  value of the property itself, number or not, when that value is truthy.
\<close>

theorem field_defaults:
  assumes "cacheCheck (weatherCache w) (now w) (cacheKey lat lon) = None"
    and "net (length (requests w)) lat lon = (Response status (Some body), delay)"
    and "ok status"
    and "getProperty body ''current'' = Some current"
    and "truthy current"
  shows "fst (fetchWeatherData net lat lon w) \<noteq> None
       \<and> fst (fetchWeatherData_v1 net lat lon w) \<noteq> None
       \<and> (\<forall>obs. fst (fetchWeatherData net lat lon w) = Some obs
                 \<or> fst (fetchWeatherData_v1 net lat lon w) = Some obs \<longrightarrow>
            (\<forall>(p, v) \<in> set (weatherFields obs).
               (getProperty current p = None \<longrightarrow> v = JNum 0)
             \<and> (\<forall>j. getProperty current p = Some j \<longrightarrow> \<not> truthy j \<longrightarrow> v = JNum 0)
             \<and> (\<forall>j. getProperty current p = Some j \<longrightarrow> truthy j \<longrightarrow> v = j)))"
proof -
  have body: "body \<noteq> JNull" using assms(4) by auto
  have s: "status \<noteq> 429" using assms(3) by (auto simp: ok_def)
  have a: "fst (fetchWeatherData net lat lon w)
      = Some (parseWeather lat lon current (Some (now w + delay)))"
    using assms body s by (simp add: fetchWeatherData_def fetchAt_miss onResponse_def Let_def)
  have b: "fst (fetchWeatherData_v1 net lat lon w) = Some (parseWeather lat lon current None)"
    using assms body
    by (simp add: fetchWeatherData_v1_def fetchWeatherDataAt_v1_def onResponse_v1_def)
  have f: "\<forall>(p, v) \<in> set (weatherFields (parseWeather lat lon current ts)).
               (getProperty current p = None \<longrightarrow> v = JNum 0)
             \<and> (\<forall>j. getProperty current p = Some j \<longrightarrow> \<not> truthy j \<longrightarrow> v = JNum 0)
             \<and> (\<forall>j. getProperty current p = Some j \<longrightarrow> truthy j \<longrightarrow> v = j)" for ts
    by (simp add: weatherFields_def parseWeather_def orZero_def)
  show ?thesis using a b f [of "Some (now w + delay)"] f [of None] by auto
qed

theorem field_defaults_witness:
  "fst (fetchWeatherData partialNet 1 2 emptyWorld) = Some (partialObs 1 2 (Some 1120))
   \<and> temperature (partialObs 1 2 (Some 1120)) = JStr ''warm''
   \<and> windDirection (partialObs 1 2 (Some 1120)) = JNum 0
   \<and> humidity (partialObs 1 2 (Some 1120)) = JNum 0
   \<and> pressure (partialObs 1 2 (Some 1120)) = JNum 0"
  using field_defaults [of emptyWorld 1 2 partialNet 200 partialPayload 120 partialCurrent]
    partial_fetch [of 1 2]
  by (simp add: emptyWorld_def partialNet_def partialPayload_def partialCurrent_def cacheCheck_def
      ok_def weatherFields_def)

text \<open>
  C7 as stated fails: a non-empty string in \<open>temperature_2m\<close> is not numeric, and it is
  stored as the temperature, not replaced by zero.
\<close>

theorem malformed_field_kept:
  "map_option temperature (fst (fetchWeatherData partialNet 1 2 emptyWorld)) = Some (JStr ''warm'')
   \<and> map_option temperature (fst (fetchWeatherData_v1 partialNet 1 2 emptyWorld))
       = Some (JStr ''warm'')
   \<and> JStr ''warm'' \<noteq> JNum 0"
  by (simp add: partial_fetch partial_fetch_v1 partialObs_def)

text \<open>
  C9, as the code has it. A call that finds no live cache entry and returns an observation
  returns it with exactly the latitude and longitude it was called with, whatever the
  response body holds, and so does every call of the revision without a cache; a call that
  finds a live cache entry returns the stored observation as it is.
\<close>

theorem returned_coordinates:
  "(cacheCheck (weatherCache w) (now w) (cacheKey lat lon) = None \<longrightarrow>
      fetchWeatherData net lat lon w = (Some obs, w') \<longrightarrow>
      latitude obs = lat \<and> longitude obs = lon)
   \<and> (cacheCheck (weatherCache w) (now w) (cacheKey lat lon) = Some d \<longrightarrow>
      fetchWeatherData net lat lon w = (Some d, w))
   \<and> (fetchWeatherData_v1 net lat lon w = (Some obsA, wA) \<longrightarrow>
      latitude obsA = lat \<and> longitude obsA = lon)"
  using fetch_miss_coords [of w lat lon net obs w'] fetch_v1_coords [of net lat lon w obsA wA]
  by (simp add: fetchWeatherData_def fetchAt_hit)

theorem returned_coordinates_witness:
  "fetchWeatherData partialNet 1 2 emptyWorld = (Some (partialObs 1 2 (Some 1120)), partialWorld 1 2)
   \<and> latitude (partialObs 1 2 (Some 1120)) = 1 \<and> longitude (partialObs 1 2 (Some 1120)) = 2
   \<and> fetchWeatherData partialNet 1 2 (cachedWorld 4999)
       = (Some (partialObs 1 2 (Some 700)), cachedWorld 4999)
   \<and> latitude (partialObs 1 2 None) = 1 \<and> longitude (partialObs 1 2 None) = 2"
  using returned_coordinates [where w = emptyWorld and lat = 1 and lon = 2 and net = partialNet
       and obs = "partialObs 1 2 (Some 1120)" and obsA = "partialObs 1 2 None"
       and w' = "partialWorld 1 2"
       and wA = "\<lparr> weatherCache = Map.empty, now = 1120, requests = [(1, 2)] \<rparr>"]
     returned_coordinates [where w = "cachedWorld 4999" and lat = 1 and lon = 2
       and d = "partialObs 1 2 (Some 700)" and net = partialNet]
     partial_fetch [of 1 2] partial_fetch_v1 [of 1 2]
  by (simp add: cachedWorld_def cacheCheck_def emptyWorld_def)

text \<open>
  C9 as stated fails on a cache hit: after a fetch for (10.001, 20.001) has filled the
  cache, a fetch for (10.002, 20.002), which has the same key, returns the stored
  observation, whose latitude is 10.001 and not the 10.002 that was passed in.
\<close>

theorem cached_coordinates_differ:
  "map_option latitude
     (fst (fetchWeatherData partialNet (10002 / 1000) (20002 / 1000)
        (snd (fetchWeatherData partialNet (10001 / 1000) (20001 / 1000) emptyWorld))))
     = Some (10001 / 1000)
   \<and> (10001 / 1000 :: real) \<noteq> 10002 / 1000"
  unfolding partial_fetch snd_conv
  by (simp add: partialWorld_def fetchWeatherData_def fetchWeatherDataAt_def
      cacheCheck_def partialObs_def cacheKey_def toFixed2_def digit_def Let_def)

text \<open>
  C10. When the upstream answers a request with a success status and a body that has no
  \<open>current\<close> property, \<open>fetchWeatherData\<close> returns \<open>null\<close> and the cache is as it was, in
  both revisions.
\<close>

theorem no_current_is_absent:
  "cacheCheck (weatherCache w) (now w) (cacheKey lat lon) = None \<Longrightarrow>
   net (length (requests w)) lat lon = (Response status (Some body), delay) \<Longrightarrow>
   ok status \<Longrightarrow> getProperty body ''current'' = None \<Longrightarrow>
     fst (fetchWeatherData net lat lon w) = None
   \<and> weatherCache (snd (fetchWeatherData net lat lon w)) = weatherCache w
   \<and> fst (fetchWeatherData_v1 net lat lon w) = None
   \<and> weatherCache (snd (fetchWeatherData_v1 net lat lon w)) = weatherCache w"
  by (auto simp: fetchWeatherData_def fetchAt_miss onResponse_def fetchWeatherData_v1_def
        fetchWeatherDataAt_v1_def onResponse_v1_def)

theorem no_current_is_absent_witness:
  "fst (fetchWeatherData (\<lambda>i lat lon. (Response 200 (Some (JObj [(''latitude'', JNum 1)])), 80))
          1 2 (cachedWorld 5000)) = None
   \<and> weatherCache (snd (fetchWeatherData
          (\<lambda>i lat lon. (Response 200 (Some (JObj [(''latitude'', JNum 1)])), 80))
          1 2 (cachedWorld 5000))) = weatherCache (cachedWorld 5000)"
  using no_current_is_absent [of "cachedWorld 5000" 1 2
      "\<lambda>i lat lon. (Response 200 (Some (JObj [(''latitude'', JNum 1)])), 80)"
      200 "JObj [(''latitude'', JNum 1)]" 80]
  by (simp add: cachedWorld_def cacheCheck_def ok_def)

section \<open>The batch fetcher: lemmas\<close>

subsection \<open>collect\<close>

lemma fulfilled_append: "fulfilled (xs @ ys) = fulfilled xs @ fulfilled ys"
  by (induction xs rule: fulfilled.induct) auto

lemma collect_Nil: "collect [] m = m"
  by (simp add: collect_def)

lemma collect_Cons:
  "collect (r # rs) m = collect rs (case r of None \<Rightarrow> m | Some (k, weather) \<Rightarrow> m(k \<mapsto> weather))"
  by (simp add: collect_def)

lemma collect_append: "collect (xs @ ys) m = collect ys (collect xs m)"
  by (simp add: collect_def)

lemma collect_notin: "k \<notin> fst ` set (fulfilled rs) \<Longrightarrow> collect rs m k = m k"
  by (induction rs arbitrary: m rule: fulfilled.induct) (auto simp: collect_Nil collect_Cons)

lemma collect_in:
  "distinct (map fst (fulfilled rs)) \<Longrightarrow> (k, d) \<in> set (fulfilled rs) \<Longrightarrow> collect rs m k = Some d"
proof (induction rs arbitrary: m rule: fulfilled.induct)
  case 1
  then show ?case by simp
next
  case (2 rs)
  then show ?case by (simp add: collect_Cons)
next
  case (3 x rs)
  obtain a b where x: "x = (a, b)" by (cases x)
  from 3(2) have notin: "a \<notin> fst ` set (fulfilled rs)" and dist: "distinct (map fst (fulfilled rs))"
    by (simp_all add: x)
  show ?case
  proof (cases "k = a")
    case True
    with notin 3(3) have "d = b" by (force simp: x)
    with True notin show ?thesis by (simp add: collect_Cons x collect_notin)
  next
    case False
    with 3(3) have "(k, d) \<in> set (fulfilled rs)" by (simp add: x)
    from 3(1) [OF dist this] show ?thesis by (simp add: collect_Cons x)
  qed
qed

lemma dom_collect: "dom (collect rs m) = dom m \<union> fst ` set (fulfilled rs)"
  by (induction rs arbitrary: m rule: fulfilled.induct) (auto simp: collect_Nil collect_Cons)

lemma collect_Some_in:
  "collect rs m k = Some d \<Longrightarrow> m k = Some d \<or> (k, d) \<in> set (fulfilled rs)"
proof (induction rs arbitrary: m rule: fulfilled.induct)
  case 1
  then show ?case by (simp add: collect_Nil)
next
  case (2 rs)
  then show ?case by (simp add: collect_Cons)
next
  case (3 x rs)
  obtain a b where x: "x = (a, b)" by (cases x)
  from 3(2) have "collect rs (m(a \<mapsto> b)) k = Some d" by (simp add: collect_Cons x)
  from 3(1) [OF this] show ?case by (auto simp: x split: if_splits)
qed

lemma collect_add: "collect rs m = m ++ collect rs Map.empty"
proof (induction rs arbitrary: m)
  case Nil
  then show ?case by (simp add: collect_Nil)
next
  case (Cons r rs)
  show ?case
  proof (cases r)
    case None
    have "collect (r # rs) m = collect rs m" by (simp add: collect_Cons None)
    also have "\<dots> = m ++ collect rs Map.empty" by (rule Cons)
    also have "\<dots> = m ++ collect (r # rs) Map.empty" by (simp add: collect_Cons None)
    finally show ?thesis .
  next
    case (Some x)
    obtain k v where x: "x = (k, v)" by (cases x)
    have "collect (r # rs) m = collect rs (m(k \<mapsto> v))" by (simp add: collect_Cons Some x)
    also have "\<dots> = m(k \<mapsto> v) ++ collect rs Map.empty" by (rule Cons)
    also have "\<dots> = m ++ ([k \<mapsto> v] ++ collect rs Map.empty)" by simp
    also have "[k \<mapsto> v] ++ collect rs Map.empty = collect rs [k \<mapsto> v]" by (rule Cons [symmetric])
    also have "collect rs [k \<mapsto> v] = collect (r # rs) Map.empty" by (simp add: collect_Cons Some x)
    finally show ?thesis .
  qed
qed

lemma fold_union_collect:
  "fold (\<lambda>m u. u ++ m) (map (\<lambda>rs. collect rs Map.empty) rss) u = collect (concat rss) u"
proof (induction rss arbitrary: u)
  case Nil
  then show ?case by (simp add: collect_Nil)
next
  case (Cons rs rss)
  have "fold (\<lambda>m u. u ++ m) (map (\<lambda>rs. collect rs Map.empty) (rs # rss)) u
      = fold (\<lambda>m u. u ++ m) (map (\<lambda>rs. collect rs Map.empty) rss) (u ++ collect rs Map.empty)"
    by simp
  also have "\<dots> = collect (concat rss) (u ++ collect rs Map.empty)" by (rule Cons)
  also have "u ++ collect rs Map.empty = collect rs u" by (rule collect_add [symmetric])
  finally show ?case by (simp add: collect_append)
qed

lemma unionMaps_collect:
  "unionMaps (map (\<lambda>rs. collect rs Map.empty) rss) = collect (concat rss) Map.empty"
  by (simp add: unionMaps_def fold_union_collect)

subsection \<open>The loops as a list of batches\<close>

lemma assemble_Nil: "assemble cb [] (state s) s = s"
  by (simp add: assemble_def collect_Nil)

lemma assemble_Cons:
  "assemble cb rss w' (completeBatch cb rs w s) = assemble cb (rs # rss) w' s"
  by (simp add: assemble_def completeBatch_def collect_append)

lemma assemble_pause: "assemble cb rss w' (pause ms s) = assemble cb rss w' s"
  by (simp add: assemble_def pause_def)

lemma slices_step:
  "0 < m \<Longrightarrow> i < length xs \<Longrightarrow> slices m xs i = take m (drop i xs) # slices m xs (i + m)"
  by (subst slices.simps) simp

lemma slices_done: "\<not> i < length xs \<Longrightarrow> slices m xs i = []"
  by (subst slices.simps) simp

lemma batchLoop_step:
  "i < length xs \<Longrightarrow> settle net (take m (drop i xs)) (state s) = (rs, w1) \<Longrightarrow>
     batchLoop net m cb xs i s = batchLoop net m cb xs (i + m) (completeBatch cb rs w1 s)"
  by (subst batchLoop.simps) (simp add: settle_def)

lemma batchLoop_done: "\<not> i < length xs \<Longrightarrow> batchLoop net m cb xs i s = Some s"
  by (subst batchLoop.simps) simp

lemma batchLoop_slices:
  "0 < m \<Longrightarrow> batchLoop net m cb xs i s =
     Some (assemble cb (fst (settleBatches (settle net) 0 (slices m xs i) (state s)))
             (snd (settleBatches (settle net) 0 (slices m xs i) (state s))) s)"
proof (induction m xs i arbitrary: s rule: slices.induct)
  case (1 m xs i)
  show ?case
  proof (cases "i < length xs")
    case False
    then show ?thesis
      by (simp add: batchLoop_done slices_done assemble_Nil)
  next
    case True
    obtain rs w1 where st: "settle net (take m (drop i xs)) (state s) = (rs, w1)"
      by (cases "settle net (take m (drop i xs)) (state s)")
    have ih: "batchLoop net m cb xs (i + m) (completeBatch cb rs w1 s) =
      Some (assemble cb (fst (settleBatches (settle net) 0 (slices m xs (i + m)) w1))
             (snd (settleBatches (settle net) 0 (slices m xs (i + m)) w1)) (completeBatch cb rs w1 s))"
      using 1 True by (simp add: completeBatch_def)
    show ?thesis
      using True 1(2) st
      by (simp add: batchLoop_step [OF True st] ih slices_step assemble_Cons split: prod.splits)
  qed
qed


lemma slices_Nil_iff: "0 < m \<Longrightarrow> slices m xs i = [] \<longleftrightarrow> \<not> i < length xs"
  by (subst slices.simps) simp

lemma batchLoop_v1_step:
  "i < length xs \<Longrightarrow> settle_v1 net (take m (drop i xs)) (state s) = (rs, w1) \<Longrightarrow>
     batchLoop_v1 net m cb xs i s =
       batchLoop_v1 net m cb xs (i + m)
         (if i + m < length xs then pause 50 (completeBatch cb rs w1 s)
          else completeBatch cb rs w1 s)"
  by (subst batchLoop_v1.simps) (simp add: settle_v1_def)

lemma batchLoop_v1_done: "\<not> i < length xs \<Longrightarrow> batchLoop_v1 net m cb xs i s = Some s"
  by (subst batchLoop_v1.simps) simp

lemma batchLoop_v1_slices:
  "0 < m \<Longrightarrow> batchLoop_v1 net m cb xs i s =
     Some (assemble cb (fst (settleBatches (settle_v1 net) 50 (slices m xs i) (state s)))
             (snd (settleBatches (settle_v1 net) 50 (slices m xs i) (state s))) s)"
proof (induction m xs i arbitrary: s rule: slices.induct)
  case (1 m xs i)
  show ?case
  proof (cases "i < length xs")
    case False
    then show ?thesis
      by (simp add: batchLoop_v1_done slices_done assemble_Nil)
  next
    case True
    obtain rs w1 where st: "settle_v1 net (take m (drop i xs)) (state s) = (rs, w1)"
      by (cases "settle_v1 net (take m (drop i xs)) (state s)")
    let ?s1 = "completeBatch cb rs w1 s"
    let ?s2 = "if i + m < length xs then pause 50 ?s1 else ?s1"
    let ?w2 = "if slices m xs (i + m) \<noteq> [] then w1\<lparr> now := now w1 + 50 \<rparr> else w1"
    have w2: "state ?s2 = ?w2"
      using 1(2) by (simp add: slices_Nil_iff pause_def completeBatch_def)
    have ih: "batchLoop_v1 net m cb xs (i + m) ?s2 =
      Some (assemble cb (fst (settleBatches (settle_v1 net) 50 (slices m xs (i + m)) ?w2))
             (snd (settleBatches (settle_v1 net) 50 (slices m xs (i + m)) ?w2)) ?s2)"
      using 1(1) [of ?s2] True 1(2) w2 by simp
    have asm: "assemble cb rss w' ?s2 = assemble cb (rs # rss) w' s" for rss w'
      by (simp add: assemble_pause assemble_Cons)
    show ?thesis
      unfolding batchLoop_v1_step [OF True st] ih asm
      using True 1(2) st
      by (simp add: slices_step split: prod.splits)
  qed
qed

subsection \<open>Arithmetic and lists\<close>

lemma div_between: "0 < (m::nat) \<Longrightarrow> m \<le> k \<Longrightarrow> k < m + m \<Longrightarrow> k div m = 1"
proof -
  assume m: "0 < m" and le: "m \<le> k" and lt: "k < m + m"
  then have "k = (k - m) + m" "k - m < m" by simp_all
  then have "k div m = (k - m) div m + 1"
    using m by (metis div_add_self2 less_numeral_extra(3))
  then show ?thesis using \<open>k - m < m\<close> by simp
qed

lemma ceiling_div_nat:
  assumes "0 < m"
  shows "\<lceil>real n / real m\<rceil> = int ((n + m - 1) div m)"
proof (rule ceiling_unique)
  let ?z = "(n + m - 1) div m"
  have lo: "?z * m \<le> n + m - 1" by simp
  have hi: "n + m - 1 < ?z * m + m"
    using assms dividend_less_div_times [of m "n + m - 1"] by (simp add: add.commute)
  have a: "?z * m < n + m" using lo assms by linarith
  have b: "n \<le> ?z * m" using hi assms by linarith
  from a have "real (?z * m) < real (n + m)" by (rule less_imp_of_nat_less)
  then have "(real ?z - 1) * real m < real n" by (simp add: algebra_simps)
  then show "real_of_int (int ?z) - 1 < real n / real m"
    using assms by (simp add: pos_less_divide_eq)
  from b have "real n \<le> real (?z * m)" using of_nat_le_iff by blast
  then show "real n / real m \<le> real_of_int (int ?z)"
    using assms by (simp add: pos_divide_le_eq)
qed

lemma count_le_distinct: "(\<forall>k. count_list xs k \<le> 1) \<Longrightarrow> distinct xs"
proof (induction xs)
  case Nil
  then show ?case by simp
next
  case (Cons a xs)
  from Cons.prems have "count_list (a # xs) a \<le> 1" by blast
  then have a: "a \<notin> set xs" by (simp add: count_list_0_iff)
  have "count_list xs k \<le> 1" for k
    using Cons.prems [rule_format, of k] by (simp split: if_splits)
  with Cons.IH a show ?case by simp
qed

lemma distinct_count_le: "distinct xs \<Longrightarrow> count_list xs k \<le> 1"
  by (induction xs) auto

lemma distinct_concat_nth:
  "distinct (concat yss) \<Longrightarrow> i < j \<Longrightarrow> j < length yss \<Longrightarrow> set (yss ! i) \<inter> set (yss ! j) = {}"
proof (induction yss arbitrary: i j)
  case Nil
  then show ?case by simp
next
  case (Cons ys yss)
  show ?case
  proof (cases i)
    case 0
    with Cons.prems obtain j' where j: "j = Suc j'" "j' < length yss" by (cases j) auto
    from j(2) have "yss ! j' \<in> set yss" by (rule nth_mem)
    then have "set (yss ! j') \<subseteq> set (concat yss)" by auto
    with Cons.prems(1) 0 j show ?thesis by auto
  next
    case (Suc i')
    with Cons.prems obtain j' where j: "j = Suc j'" "i' < j'" "j' < length yss" by (cases j) auto
    with Cons.IH [of i' j'] Cons.prems(1) Suc show ?thesis by simp
  qed
qed

subsection \<open>Slices\<close>

lemma concat_slices: "0 < m \<Longrightarrow> concat (slices m xs i) = drop i xs"
proof (induction m xs i rule: slices.induct)
  case (1 m xs i)
  show ?case
  proof (cases "i < length xs")
    case True
    have "take m (drop i xs) @ drop (i + m) xs = drop i xs"
      by (metis add.commute append_take_drop_id drop_drop)
    with 1 True show ?thesis by (simp add: slices_step)
  next
    case False
    then show ?thesis by (simp add: slices_done)
  qed
qed

lemma length_slices: "0 < m \<Longrightarrow> length (slices m xs i) = (length xs - i + m - 1) div m"
proof (induction m xs i rule: slices.induct)
  case (1 m xs i)
  show ?case
  proof (cases "i < length xs")
    case False
    with 1(2) show ?thesis by (simp add: slices_done)
  next
    case True
    have ih: "length (slices m xs (i + m)) = (length xs - (i + m) + m - 1) div m"
      using 1 True by simp
    show ?thesis
    proof (cases "i + m \<le> length xs")
      case le: True
      have "length xs - i + m - 1 = (length xs - (i + m) + m - 1) + m"
        using le 1(2) by linarith
      then have "(length xs - i + m - 1) div m = (length xs - (i + m) + m - 1) div m + 1"
        using 1(2) by (metis div_add_self2 less_numeral_extra(3))
      with ih True 1(2) show ?thesis by (simp add: slices_step)
    next
      case gt: False
      have a: "(length xs - (i + m) + m - 1) div m = 0" using gt 1(2) by simp
      have "m \<le> length xs - i + m - 1" "length xs - i + m - 1 < m + m"
        using gt True by linarith+
      with 1(2) have "(length xs - i + m - 1) div m = 1" by (rule div_between)
      with ih True 1(2) a show ?thesis by (simp add: slices_step)
    qed
  qed
qed

subsection \<open>Deduplication\<close>

lemma addUnique_keyed:
  "\<forall>x\<in>set u. fst x = keyOf (snd x) \<Longrightarrow> \<forall>x\<in>set (addUnique p u). fst x = keyOf (snd x)"
  by (auto simp: addUnique_def)

lemma fold_addUnique_keyed:
  "\<forall>x\<in>set u. fst x = keyOf (snd x) \<Longrightarrow> \<forall>x\<in>set (fold addUnique ps u). fst x = keyOf (snd x)"
proof (induction ps arbitrary: u)
  case Nil
  then show ?case by simp
next
  case (Cons p ps)
  from Cons.IH [OF addUnique_keyed [OF Cons.prems]] show ?case by simp
qed

lemma fold_addUnique_distinct:
  "distinct (map fst u) \<Longrightarrow> distinct (map fst (fold addUnique ps u))"
  by (induction ps arbitrary: u) (auto simp: addUnique_def)

lemma fold_addUnique_keys:
  "fst ` set (fold addUnique ps u) = fst ` set u \<union> keyOf ` set ps"
  by (induction ps arbitrary: u) (auto simp: addUnique_def)

lemma addUnique_subset: "snd ` set (addUnique p u) \<subseteq> snd ` set u \<union> {p}"
  by (auto simp: addUnique_def)

lemma fold_addUnique_subset:
  "snd ` set (fold addUnique ps u) \<subseteq> snd ` set u \<union> set ps"
proof (induction ps arbitrary: u)
  case Nil
  then show ?case by simp
next
  case (Cons p ps)
  from Cons.IH [of "addUnique p u"] addUnique_subset [of p u] show ?case by auto
qed

lemma keys_uniquePositions: "map keyOf (deduplicated ps) = map fst (uniquePositions ps)"
  using fold_addUnique_keyed [of "[]" ps]
  by (simp add: deduplicated_def uniquePositions_def)

lemma distinct_deduplicated: "distinct (map keyOf (deduplicated ps))"
  using fold_addUnique_distinct [of "[]" ps]
  by (simp add: keys_uniquePositions uniquePositions_def)

lemma keys_deduplicated: "keyOf ` set (deduplicated ps) = keyOf ` set ps"
proof -
  have "set (map keyOf (deduplicated ps)) = keyOf ` set ps"
    unfolding keys_uniquePositions
    using fold_addUnique_keys [of ps "[]"] by (simp add: uniquePositions_def)
  then show ?thesis by simp
qed

lemma set_deduplicated: "set (deduplicated ps) \<subseteq> set ps"
  using fold_addUnique_subset [of ps "[]"] by (simp add: deduplicated_def uniquePositions_def)

lemma length_deduplicated: "length (deduplicated ps) = card (keyOf ` set ps)"
proof -
  have "length (deduplicated ps) = length (map keyOf (deduplicated ps))" by simp
  also have "\<dots> = card (set (map keyOf (deduplicated ps)))"
    by (rule distinct_card [symmetric]) (rule distinct_deduplicated)
  also have "\<dots> = card (keyOf ` set ps)" using keys_deduplicated [of ps] by simp
  finally show ?thesis .
qed



lemma finalMap_fold:
  "fold (\<lambda>pos m. case wm (keyOf pos) of None \<Rightarrow> m | Some weather \<Rightarrow> m(keyOf pos \<mapsto> weather)) ps acc k
     = (if k \<in> keyOf ` set ps \<and> wm k \<noteq> None then wm k else acc k)"
  by (induction ps arbitrary: acc) (auto split: option.splits)

lemma finalMap_apply: "finalMap ps wm k = (if k \<in> keyOf ` set ps then wm k else None)"
  by (auto simp: finalMap_def finalMap_fold)

lemma finalMap_id:
  assumes "dom wm \<subseteq> keyOf ` set ps"
  shows "finalMap ps wm = wm"
proof (rule ext)
  fix k
  show "finalMap ps wm k = wm k"
  proof (cases "k \<in> keyOf ` set ps")
    case True
    then show ?thesis by (simp add: finalMap_apply)
  next
    case False
    with assms have "k \<notin> dom wm" by blast
    then have "wm k = None" by (simp add: domIff)
    with False show ?thesis by (simp add: finalMap_apply)
  qed
qed

subsection \<open>One fetch of a batch\<close>

lemma cacheCheck_later: "cacheCheck c t k = None \<Longrightarrow> t \<le> t' \<Longrightarrow> cacheCheck c t' k = None"
  by (auto simp: cacheCheck_def split: option.splits if_splits)

lemma cacheCheck_cong: "c k = c' k \<Longrightarrow> cacheCheck c t k = cacheCheck c' t k"
  by (simp add: cacheCheck_def)

lemma onResponse_other:
  assumes "k \<noteq> cacheKey lat lon"
  shows "snd (onResponse lat lon t out c) k = c k"
proof (cases "onResponse lat lon t out c")
  case (Pair r c')
  show ?thesis
  proof (cases r)
    case None
    with Pair show ?thesis by (auto dest: onResponse_None)
  next
    case (Some d)
    with Pair assms show ?thesis by (auto dest: onResponse_Some)
  qed
qed


lemma fetchAt_now:
  assumes "fetchWeatherDataAt net c0 t0 lat lon w = (r, w')"
  shows "now w \<le> now w'"
  using assms
  by (cases "cacheCheck c0 t0 (cacheKey lat lon)") (auto simp: fetchAt_miss fetchAt_hit)

lemma fetchAt_other:
  assumes "fetchWeatherDataAt net c0 t0 lat lon w = (r, w')" and "k \<noteq> cacheKey lat lon"
  shows "weatherCache w' k = weatherCache w k"
  using assms
  by (cases "cacheCheck c0 t0 (cacheKey lat lon)")
     (auto simp: fetchAt_miss fetchAt_hit onResponse_other)

lemma fetchAt_failed:
  assumes "failing net (cacheKey lat lon)" and "cacheCheck c0 t0 (cacheKey lat lon) = None"
    and "fetchWeatherDataAt net c0 t0 lat lon w = (r, w')"
  shows "r = None \<and> weatherCache w' = weatherCache w"
proof -
  have "failed (fst (net (length (requests w)) lat lon))"
    using assms(1) by (simp add: failing_def)
  with assms(2,3) show ?thesis by (auto simp: fetchAt_miss onResponse_failed)
qed

lemma fetchAt_v1_failed:
  assumes "failing net (cacheKey lat lon)"
  shows "fst (fetchWeatherDataAt_v1 net t0 lat lon w) = None"
proof -
  have "failed (fst (net (length (requests w)) lat lon))"
    using assms(1) by (simp add: failing_def)
  then show ?thesis
    by (auto simp: fetchWeatherDataAt_v1_def onResponse_v1_def failed_def
        split: prod.splits fetch_outcome.splits)
qed

lemma fulfilled_Cons:
  "fulfilled (map_option (Pair k) r # rs)
     = (case r of None \<Rightarrow> fulfilled rs | Some d \<Rightarrow> (k, d) # fulfilled rs)"
  by (cases r) simp_all

subsection \<open>One batch\<close>

lemma settleAll_ConsE:
  assumes "settleAll net c0 t0 (pos # batch) w = (rs, w')"
  obtains r w1 rs' where "fetchWeatherDataAt net c0 t0 (latitude pos) (longitude pos) w = (r, w1)"
    and "settleAll net c0 t0 batch w1 = (rs', w')"
    and "rs = map_option (Pair (keyOf pos)) r # rs'"
  using assms by (auto split: prod.splits)

lemma settleAll_v1_ConsE:
  assumes "settleAll_v1 net t0 (pos # batch) w = (rs, w')"
  obtains r w1 rs' where "fetchWeatherDataAt_v1 net t0 (latitude pos) (longitude pos) w = (r, w1)"
    and "settleAll_v1 net t0 batch w1 = (rs', w')"
    and "rs = map_option (Pair (keyOf pos)) r # rs'"
  using assms by (auto split: prod.splits)

lemma settleAll_answers: "settleAll net c0 t0 batch w = (rs, w') \<Longrightarrow> answers rs batch"
proof (induction batch arbitrary: w rs w')
  case Nil
  then show ?case by (simp add: answers_def)
next
  case (Cons pos batch)
  from Cons.prems obtain r w1 rs' where
    rest: "settleAll net c0 t0 batch w1 = (rs', w')" and rs: "rs = map_option (Pair (keyOf pos)) r # rs'"
    by (rule settleAll_ConsE)
  from Cons.IH [OF rest] show ?case
    unfolding rs answers_def fulfilled_Cons by (cases r) (auto intro: le_SucI)
qed

lemma settleAll_v1_answers: "settleAll_v1 net t0 batch w = (rs, w') \<Longrightarrow> answers rs batch"
proof (induction batch arbitrary: w rs w')
  case Nil
  then show ?case by (simp add: answers_def)
next
  case (Cons pos batch)
  from Cons.prems obtain r w1 rs' where
    rest: "settleAll_v1 net t0 batch w1 = (rs', w')" and rs: "rs = map_option (Pair (keyOf pos)) r # rs'"
    by (rule settleAll_v1_ConsE)
  from Cons.IH [OF rest] show ?case
    unfolding rs answers_def fulfilled_Cons by (cases r) (auto intro: le_SucI)
qed


lemma settleAll_now: "settleAll net c0 t0 batch w = (rs, w') \<Longrightarrow> now w \<le> now w'"
proof (induction batch arbitrary: w rs w')
  case Nil
  then show ?case by simp
next
  case (Cons pos batch)
  from Cons.prems obtain r w1 rs' where
    one: "fetchWeatherDataAt net c0 t0 (latitude pos) (longitude pos) w = (r, w1)" and
    rest: "settleAll net c0 t0 batch w1 = (rs', w')"
    by (rule settleAll_ConsE)
  from fetchAt_now [OF one] Cons.IH [OF rest] show ?case by simp
qed

lemma settleAll_failed:
  assumes "failing net k" and "cacheCheck c0 t0 k = None"
  shows "settleAll net c0 t0 batch w = (rs, w') \<Longrightarrow>
     k \<notin> fst ` set (fulfilled rs) \<and> weatherCache w' k = weatherCache w k"
proof (induction batch arbitrary: w rs w')
  case Nil
  then show ?case by simp
next
  case (Cons pos batch)
  from Cons.prems obtain r w1 rs' where
    one: "fetchWeatherDataAt net c0 t0 (latitude pos) (longitude pos) w = (r, w1)" and
    rest: "settleAll net c0 t0 batch w1 = (rs', w')" and
    rs: "rs = map_option (Pair (keyOf pos)) r # rs'"
    by (rule settleAll_ConsE)
  note ih = Cons.IH [OF rest]
  show ?case
  proof (cases "keyOf pos = k")
    case True
    with assms fetchAt_failed [OF _ _ one] have "r = None \<and> weatherCache w1 = weatherCache w"
      by (simp add: keyOf_def)
    with ih rs show ?thesis by simp
  next
    case False
    then have "weatherCache w1 k = weatherCache w k"
      using fetchAt_other [OF one, of k] by (simp add: keyOf_def)
    with ih rs False show ?thesis by (cases r) auto
  qed
qed

lemma settleAll_v1_failed:
  assumes "failing net k"
  shows "settleAll_v1 net t0 batch w = (rs, w') \<Longrightarrow> k \<notin> fst ` set (fulfilled rs)"
proof (induction batch arbitrary: w rs w')
  case Nil
  then show ?case by simp
next
  case (Cons pos batch)
  from Cons.prems obtain r w1 rs' where
    one: "fetchWeatherDataAt_v1 net t0 (latitude pos) (longitude pos) w = (r, w1)" and
    rest: "settleAll_v1 net t0 batch w1 = (rs', w')" and
    rs: "rs = map_option (Pair (keyOf pos)) r # rs'"
    by (rule settleAll_v1_ConsE)
  note ih = Cons.IH [OF rest]
  show ?case
  proof (cases "keyOf pos = k")
    case True
    with assms fetchAt_v1_failed [of net "latitude pos" "longitude pos" t0 w] one
    have "r = None" by (simp add: keyOf_def)
    with ih rs show ?thesis by simp
  next
    case False
    with ih rs show ?thesis by (cases r) auto
  qed
qed

subsection \<open>All batches\<close>

lemma settleBatches_ConsE:
  assumes "settleBatches f ms (b # bs) w = (rss, w')"
  obtains rs w1 rss' where "f b w = (rs, w1)"
    and "settleBatches f ms bs (if bs \<noteq> [] then w1\<lparr> now := now w1 + ms \<rparr> else w1) = (rss', w')"
    and "rss = rs # rss'"
  using assms by (auto split: prod.splits)

lemma settleBatches_answers:
  assumes f: "\<And>b w rs w'. f b w = (rs, w') \<Longrightarrow> answers rs b"
  shows "settleBatches f ms bs w = (rss, w') \<Longrightarrow> list_all2 answers rss bs"
proof (induction bs arbitrary: w rss w')
  case Nil
  then show ?case by simp
next
  case (Cons b bs)
  from Cons.prems obtain rs w1 rss' where
    one: "f b w = (rs, w1)" and
    rest: "settleBatches f ms bs (if bs \<noteq> [] then w1\<lparr> now := now w1 + ms \<rparr> else w1) = (rss', w')" and
    rss: "rss = rs # rss'"
    by (rule settleBatches_ConsE)
  from f [OF one] Cons.IH [OF rest] rss show ?case by simp
qed

lemma answers_append: "answers rs b \<Longrightarrow> answers rs' b' \<Longrightarrow> answers (rs @ rs') (b @ b')"
  by (auto simp: answers_def fulfilled_append intro: add_mono)

lemma answers_concat: "list_all2 answers rss bs \<Longrightarrow> answers (concat rss) (concat bs)"
proof (induction rule: list_all2_induct)
  case Nil
  then show ?case by (simp add: answers_def)
next
  case (Cons rs rss b bs)
  then show ?case by (simp add: answers_append)
qed

lemma answers_keys:
  assumes "answers rs b"
  shows "fst ` set (fulfilled rs) \<subseteq> keyOf ` set b"
proof
  fix k
  assume "k \<in> fst ` set (fulfilled rs)"
  then have "k \<in> set (map fst (fulfilled rs))" by simp
  then have "count_list (map fst (fulfilled rs)) k \<noteq> 0" by (simp only: count_list_0_iff not_not)
  with assms have "count_list (map keyOf b) k \<noteq> 0"
    unfolding answers_def by (metis le_zero_eq)
  then have "k \<in> set (map keyOf b)" by (simp only: count_list_0_iff not_not)
  then show "k \<in> keyOf ` set b" by simp
qed

lemma answers_distinct:
  assumes "answers rs b" and "distinct (map keyOf b)"
  shows "distinct (map fst (fulfilled rs))"
proof (rule count_le_distinct, rule allI)
  fix k
  have "count_list (map fst (fulfilled rs)) k \<le> count_list (map keyOf b) k"
    using assms(1) by (simp add: answers_def)
  also have "\<dots> \<le> 1" using assms(2) by (rule distinct_count_le)
  finally show "count_list (map fst (fulfilled rs)) k \<le> 1" .
qed

lemma Some_in_fulfilled: "Some x \<in> set rs \<longleftrightarrow> x \<in> set (fulfilled rs)"
  by (induction rs rule: fulfilled.induct) auto


lemma settleBatches_failed:
  assumes "failing net k"
  shows "cacheCheck (weatherCache w) (now w) k = None \<Longrightarrow>
     settleBatches (settle net) ms bs w = (rss, w') \<Longrightarrow> k \<notin> fst ` set (fulfilled (concat rss))"
proof (induction bs arbitrary: w rss w')
  case Nil
  then show ?case by simp
next
  case (Cons b bs)
  let ?next = "\<lambda>w1. if bs \<noteq> [] then w1\<lparr> now := now w1 + ms \<rparr> else w1"
  from Cons.prems(2) obtain rs w1 rss' where
    one: "settle net b w = (rs, w1)" and
    rest: "settleBatches (settle net) ms bs (?next w1) = (rss', w')" and
    rss: "rss = rs # rss'"
    by (rule settleBatches_ConsE)
  from one have one': "settleAll net (weatherCache w) (now w) b w = (rs, w1)"
    by (simp add: settle_def)
  from settleAll_failed [OF assms Cons.prems(1) one']
  have k: "k \<notin> fst ` set (fulfilled rs)" and c: "weatherCache w1 k = weatherCache w k" by simp_all
  have t: "now w \<le> now (?next w1)" using settleAll_now [OF one'] by simp
  have "cacheCheck (weatherCache (?next w1)) (now w) k = None"
    using Cons.prems(1) c cacheCheck_cong [of "weatherCache (?next w1)" k "weatherCache w" "now w"]
    by simp
  then have "cacheCheck (weatherCache (?next w1)) (now (?next w1)) k = None"
    using t by (rule cacheCheck_later)
  from Cons.IH [OF this rest] k rss show ?case by (auto simp: fulfilled_append)
qed

lemma settleBatches_v1_failed:
  assumes "failing net k"
  shows "settleBatches (settle_v1 net) ms bs w = (rss, w') \<Longrightarrow>
     k \<notin> fst ` set (fulfilled (concat rss))"
proof (induction bs arbitrary: w rss w')
  case Nil
  then show ?case by simp
next
  case (Cons b bs)
  from Cons.prems obtain rs w1 rss' where
    one: "settle_v1 net b w = (rs, w1)" and
    rest: "settleBatches (settle_v1 net) ms bs
      (if bs \<noteq> [] then w1\<lparr> now := now w1 + ms \<rparr> else w1) = (rss', w')" and
    rss: "rss = rs # rss'"
    by (rule settleBatches_ConsE)
  from one have "k \<notin> fst ` set (fulfilled rs)"
    using settleAll_v1_failed [OF assms] by (simp add: settle_v1_def)
  with Cons.IH [OF rest] rss show ?case by (auto simp: fulfilled_append)
qed

lemma settle_answers: "settle net b w = (rs, w') \<Longrightarrow> answers rs b"
  unfolding settle_def by (rule settleAll_answers)

lemma settle_v1_answers: "settle_v1 net b w = (rs, w') \<Longrightarrow> answers rs b"
  unfolding settle_v1_def by (rule settleAll_v1_answers)



lemma disjoint_payloads:
  assumes "list_all2 answers rss bs" and "distinct (map keyOf (concat bs))"
    and "i < j" and "j < length rss"
  shows "dom (collect (rss ! i) Map.empty) \<inter> dom (collect (rss ! j) Map.empty) = {}"
proof -
  have len: "length rss = length bs" using assms(1) by (rule list_all2_lengthD)
  have a: "fst ` set (fulfilled (rss ! n)) \<subseteq> keyOf ` set (bs ! n)" if "n < length rss" for n
    using assms(1) that by (intro answers_keys) (simp add: list_all2_nthD)
  have "distinct (concat (map (map keyOf) bs))" using assms(2) by (simp add: map_concat)
  then have "set (map (map keyOf) bs ! i) \<inter> set (map (map keyOf) bs ! j) = {}"
    using assms(3,4) len by (intro distinct_concat_nth) simp_all
  then have "keyOf ` set (bs ! i) \<inter> keyOf ` set (bs ! j) = {}"
    using assms(3,4) len by simp
  with a [of i] a [of j] assms(3,4) show ?thesis
    by (simp add: dom_collect) blast
qed


subsection \<open>The whole run\<close>

lemma fetchWeatherForPositions_run:
  assumes "0 < m"
    and "settleBatches (settle net) 0 (slices m (deduplicated ps) 0) w = (rss, w')"
  shows "fetchWeatherForPositions net ps m cb w =
     Some \<lparr> weatherMap = collect (concat rss) Map.empty,
            callbacks = (if cb then map (\<lambda>rs. collect rs Map.empty) rss else []),
            settled = concat rss, state = w' \<rparr>"
    and "list_all2 answers rss (slices m (deduplicated ps) 0)"
    and "answers (concat rss) (deduplicated ps)"
    and "distinct (map fst (fulfilled (concat rss)))"
proof -
  show all: "list_all2 answers rss (slices m (deduplicated ps) 0)"
    using settle_answers assms(2) by (rule settleBatches_answers)
  from answers_concat [OF all] show ans: "answers (concat rss) (deduplicated ps)"
    using assms(1) by (simp add: concat_slices)
  from ans distinct_deduplicated show "distinct (map fst (fulfilled (concat rss)))"
    by (rule answers_distinct)
  have "dom (collect (concat rss) Map.empty) \<subseteq> keyOf ` set ps"
    using answers_keys [OF ans] by (simp add: dom_collect keys_deduplicated)
  then have "finalMap ps (collect (concat rss) Map.empty) = collect (concat rss) Map.empty"
    by (rule finalMap_id)
  then show "fetchWeatherForPositions net ps m cb w =
     Some \<lparr> weatherMap = collect (concat rss) Map.empty,
            callbacks = (if cb then map (\<lambda>rs. collect rs Map.empty) rss else []),
            settled = concat rss, state = w' \<rparr>"
    using assms
    by (simp add: fetchWeatherForPositions_def batchLoop_slices start_def assemble_def)
qed

lemma fetchWeatherForPositions_v1_run:
  assumes "0 < m"
    and "settleBatches (settle_v1 net) 50 (slices m ps 0) w = (rss, w')"
  shows "fetchWeatherForPositions_v1 net ps m cb w =
     Some \<lparr> weatherMap = collect (concat rss) Map.empty,
            callbacks = (if cb then map (\<lambda>rs. collect rs Map.empty) rss else []),
            settled = concat rss, state = w' \<rparr>"
    and "list_all2 answers rss (slices m ps 0)"
    and "answers (concat rss) ps"
proof -
  show all: "list_all2 answers rss (slices m ps 0)"
    using settle_v1_answers assms(2) by (rule settleBatches_answers)
  from answers_concat [OF all] show "answers (concat rss) ps"
    using assms(1) by (simp add: concat_slices)
  show "fetchWeatherForPositions_v1 net ps m cb w =
     Some \<lparr> weatherMap = collect (concat rss) Map.empty,
            callbacks = (if cb then map (\<lambda>rs. collect rs Map.empty) rss else []),
            settled = concat rss, state = w' \<rparr>"
    using assms
    by (simp add: fetchWeatherForPositions_v1_def batchLoop_v1_slices start_def assemble_def)
qed

subsection \<open>Good answers\<close>

lemma onResponse_good: "good out \<Longrightarrow> fst (onResponse lat lon t out c) \<noteq> None"
  by (auto simp: good_def onResponse_def ok_def Let_def
      split: fetch_outcome.splits option.splits)

lemma onResponse_v1_good: "good out \<Longrightarrow> onResponse_v1 lat lon out \<noteq> None"
  by (auto simp: good_def onResponse_v1_def split: fetch_outcome.splits option.splits)

lemma fetchAt_good:
  assumes "succeeding net (cacheKey lat lon)"
  shows "fst (fetchWeatherDataAt net c0 t0 lat lon w) \<noteq> None"
proof (cases "cacheCheck c0 t0 (cacheKey lat lon)")
  case None
  have "good (fst (net (length (requests w)) lat lon))"
    using assms by (simp add: succeeding_def)
  then show ?thesis by (simp add: fetchAt_miss [OF None] onResponse_good)
next
  case (Some d)
  then show ?thesis by (simp add: fetchAt_hit)
qed

lemma fetchAt_v1_good:
  assumes "succeeding net (cacheKey lat lon)"
  shows "fst (fetchWeatherDataAt_v1 net t0 lat lon w) \<noteq> None"
proof -
  have "good (fst (net (length (requests w)) lat lon))"
    using assms by (simp add: succeeding_def)
  then have "onResponse_v1 lat lon (fst (net (length (requests w)) lat lon)) \<noteq> None"
    by (rule onResponse_v1_good)
  then show ?thesis
    by (cases "net (length (requests w)) lat lon") (simp add: fetchWeatherDataAt_v1_def)
qed

lemma settleAll_good:
  assumes "succeeding net k"
  shows "settleAll net c0 t0 batch w = (rs, w') \<Longrightarrow> k \<in> keyOf ` set batch \<Longrightarrow>
     k \<in> fst ` set (fulfilled rs)"
proof (induction batch arbitrary: w rs w')
  case Nil
  then show ?case by simp
next
  case (Cons pos batch)
  from Cons.prems(1) obtain r w1 rs' where
    one: "fetchWeatherDataAt net c0 t0 (latitude pos) (longitude pos) w = (r, w1)" and
    rest: "settleAll net c0 t0 batch w1 = (rs', w')" and
    rs: "rs = map_option (Pair (keyOf pos)) r # rs'"
    by (rule settleAll_ConsE)
  show ?case
  proof (cases "keyOf pos = k")
    case True
    with assms fetchAt_good [of net "latitude pos" "longitude pos" c0 t0 w] one
    obtain d where "r = Some d" by (auto simp: keyOf_def)
    with True rs show ?thesis by simp
  next
    case False
    with Cons.prems(2) have "k \<in> keyOf ` set batch" by auto
    from Cons.IH [OF rest this] rs show ?thesis by (cases r) auto
  qed
qed

lemma settleAll_v1_good:
  assumes "succeeding net k"
  shows "settleAll_v1 net t0 batch w = (rs, w') \<Longrightarrow> k \<in> keyOf ` set batch \<Longrightarrow>
     k \<in> fst ` set (fulfilled rs)"
proof (induction batch arbitrary: w rs w')
  case Nil
  then show ?case by simp
next
  case (Cons pos batch)
  from Cons.prems(1) obtain r w1 rs' where
    one: "fetchWeatherDataAt_v1 net t0 (latitude pos) (longitude pos) w = (r, w1)" and
    rest: "settleAll_v1 net t0 batch w1 = (rs', w')" and
    rs: "rs = map_option (Pair (keyOf pos)) r # rs'"
    by (rule settleAll_v1_ConsE)
  show ?case
  proof (cases "keyOf pos = k")
    case True
    with assms fetchAt_v1_good [of net "latitude pos" "longitude pos" t0 w] one
    obtain d where "r = Some d" by (auto simp: keyOf_def)
    with True rs show ?thesis by simp
  next
    case False
    with Cons.prems(2) have "k \<in> keyOf ` set batch" by auto
    from Cons.IH [OF rest this] rs show ?thesis by (cases r) auto
  qed
qed

lemma settleBatches_good:
  assumes f: "\<And>b w rs w'. f b w = (rs, w') \<Longrightarrow> k \<in> keyOf ` set b \<Longrightarrow> k \<in> fst ` set (fulfilled rs)"
  shows "settleBatches f ms bs w = (rss, w') \<Longrightarrow> k \<in> keyOf ` set (concat bs) \<Longrightarrow>
     k \<in> fst ` set (fulfilled (concat rss))"
proof (induction bs arbitrary: w rss w')
  case Nil
  then show ?case by simp
next
  case (Cons b bs)
  from Cons.prems(1) obtain rs w1 rss' where
    one: "f b w = (rs, w1)" and
    rest: "settleBatches f ms bs (if bs \<noteq> [] then w1\<lparr> now := now w1 + ms \<rparr> else w1) = (rss', w')" and
    rss: "rss = rs # rss'"
    by (rule settleBatches_ConsE)
  show ?case
  proof (cases "k \<in> keyOf ` set b")
    case True
    from f [OF one True] rss show ?thesis by (auto simp: fulfilled_append)
  next
    case False
    with Cons.prems(2) have "k \<in> keyOf ` set (concat bs)" by auto
    from Cons.IH [OF rest this] rss show ?thesis by (auto simp: fulfilled_append)
  qed
qed

lemma settle_all_good:
  assumes "succeeding net k" and "settleBatches (settle net) ms bs w = (rss, w')"
    and "k \<in> keyOf ` set (concat bs)"
  shows "k \<in> fst ` set (fulfilled (concat rss))"
proof (rule settleBatches_good [where f = "settle net", OF _ assms(2,3)])
  fix b w rs w'
  assume "settle net b w = (rs, w')" and "k \<in> keyOf ` set b"
  then show "k \<in> fst ` set (fulfilled rs)"
    using settleAll_good [OF assms(1)] by (simp add: settle_def)
qed

lemma settle_all_v1_good:
  assumes "succeeding net k" and "settleBatches (settle_v1 net) ms bs w = (rss, w')"
    and "k \<in> keyOf ` set (concat bs)"
  shows "k \<in> fst ` set (fulfilled (concat rss))"
proof (rule settleBatches_good [where f = "settle_v1 net", OF _ assms(2,3)])
  fix b w rs w'
  assume "settle_v1 net b w = (rs, w')" and "k \<in> keyOf ` set b"
  then show "k \<in> fst ` set (fulfilled rs)"
    using settleAll_v1_good [OF assms(1)] by (simp add: settle_v1_def)
qed

subsection \<open>Every position is attempted\<close>

lemma fetchAt_v1_requests:
  "fetchWeatherDataAt_v1 net t0 lat lon w = (r, w') \<Longrightarrow> requests w' = requests w @ [(lat, lon)]"
  by (auto simp: fetchWeatherDataAt_v1_def split: prod.splits)

lemma settleAll_v1_requests:
  "settleAll_v1 net t0 batch w = (rs, w') \<Longrightarrow> requests w' = requests w @ map coords batch"
proof (induction batch arbitrary: w rs w')
  case Nil
  then show ?case by simp
next
  case (Cons pos batch)
  from Cons.prems obtain r w1 rs' where
    one: "fetchWeatherDataAt_v1 net t0 (latitude pos) (longitude pos) w = (r, w1)" and
    rest: "settleAll_v1 net t0 batch w1 = (rs', w')"
    by (rule settleAll_v1_ConsE)
  from fetchAt_v1_requests [OF one] Cons.IH [OF rest] show ?case by (simp add: coords_def)
qed

lemma settle_all_v1_requests:
  "settleBatches (settle_v1 net) ms bs w = (rss, w') \<Longrightarrow>
     requests w' = requests w @ map coords (concat bs)"
proof (induction bs arbitrary: w rss w')
  case Nil
  then show ?case by simp
next
  case (Cons b bs)
  from Cons.prems obtain rs w1 rss' where
    one: "settle_v1 net b w = (rs, w1)" and
    rest: "settleBatches (settle_v1 net) ms bs
      (if bs \<noteq> [] then w1\<lparr> now := now w1 + ms \<rparr> else w1) = (rss', w')"
    by (rule settleBatches_ConsE)
  from one have "requests w1 = requests w @ map coords b"
    using settleAll_v1_requests by (simp add: settle_v1_def)
  with Cons.IH [OF rest] show ?case by (simp split: if_splits)
qed

lemma fetchAt_attempt:
  assumes "fetchWeatherDataAt net c0 t0 lat lon w = (r, w')"
  shows "\<exists>R. requests w' = requests w @ R
           \<and> ((lat, lon) \<in> set R \<or> cacheCheck c0 t0 (cacheKey lat lon) \<noteq> None)"
proof (cases "cacheCheck c0 t0 (cacheKey lat lon)")
  case None
  with assms have "requests w' = requests w @ [(lat, lon)]" by (auto simp: fetchAt_miss)
  then show ?thesis by fastforce
next
  case (Some d)
  with assms have "requests w' = requests w @ []" by (simp add: fetchAt_hit)
  with Some show ?thesis by blast
qed

lemma settleAll_attempts:
  "settleAll net c0 t0 batch w = (rs, w') \<Longrightarrow>
     \<exists>R. requests w' = requests w @ R
        \<and> (\<forall>p\<in>set batch. coords p \<in> set R \<or> cacheCheck c0 t0 (keyOf p) \<noteq> None)"
proof (induction batch arbitrary: w rs w')
  case Nil
  then show ?case by simp
next
  case (Cons pos batch)
  from Cons.prems obtain r w1 rs' where
    one: "fetchWeatherDataAt net c0 t0 (latitude pos) (longitude pos) w = (r, w1)" and
    rest: "settleAll net c0 t0 batch w1 = (rs', w')"
    by (rule settleAll_ConsE)
  from fetchAt_attempt [OF one] obtain R1 where
    R1: "requests w1 = requests w @ R1"
      "coords pos \<in> set R1 \<or> cacheCheck c0 t0 (keyOf pos) \<noteq> None"
    by (auto simp: coords_def keyOf_def)
  from Cons.IH [OF rest] obtain R2 where
    R2: "requests w' = requests w1 @ R2"
      "\<forall>p\<in>set batch. coords p \<in> set R2 \<or> cacheCheck c0 t0 (keyOf p) \<noteq> None"
    by blast
  have "requests w' = requests w @ (R1 @ R2)" using R1(1) R2(1) by simp
  moreover have "\<forall>p\<in>set (pos # batch). coords p \<in> set (R1 @ R2) \<or> cacheCheck c0 t0 (keyOf p) \<noteq> None"
    using R1(2) R2(2) by auto
  ultimately show ?case by blast
qed

lemma settleAll_other:
  "settleAll net c0 t0 batch w = (rs, w') \<Longrightarrow> k \<notin> keyOf ` set batch \<Longrightarrow>
     weatherCache w' k = weatherCache w k"
proof (induction batch arbitrary: w rs w')
  case Nil
  then show ?case by simp
next
  case (Cons pos batch)
  from Cons.prems(1) obtain r w1 rs' where
    one: "fetchWeatherDataAt net c0 t0 (latitude pos) (longitude pos) w = (r, w1)" and
    rest: "settleAll net c0 t0 batch w1 = (rs', w')"
    by (rule settleAll_ConsE)
  from Cons.prems(2) have k: "k \<noteq> cacheKey (latitude pos) (longitude pos)" "k \<notin> keyOf ` set batch"
    by (auto simp: keyOf_def)
  from fetchAt_other [OF one k(1)] Cons.IH [OF rest k(2)] show ?case by simp
qed

lemma cacheCheck_earlier:
  "cacheCheck c t' k \<noteq> None \<Longrightarrow> t \<le> t' \<Longrightarrow> cacheCheck c t k \<noteq> None"
  by (auto simp: cacheCheck_def split: option.splits if_splits)

lemma settle_all_attempts:
  "settleBatches (settle net) ms bs w = (rss, w') \<Longrightarrow> distinct (map keyOf (concat bs)) \<Longrightarrow>
     \<exists>R. requests w' = requests w @ R
        \<and> (\<forall>p\<in>set (concat bs).
              coords p \<in> set R \<or> cacheCheck (weatherCache w) (now w) (keyOf p) \<noteq> None)"
proof (induction bs arbitrary: w rss w')
  case Nil
  then show ?case by simp
next
  case (Cons b bs)
  let ?next = "\<lambda>w1. if bs \<noteq> [] then w1\<lparr> now := now w1 + ms \<rparr> else w1"
  from Cons.prems(1) obtain rs w1 rss' where
    one: "settle net b w = (rs, w1)" and
    rest: "settleBatches (settle net) ms bs (?next w1) = (rss', w')"
    by (rule settleBatches_ConsE)
  from one have one': "settleAll net (weatherCache w) (now w) b w = (rs, w1)"
    by (simp add: settle_def)
  from settleAll_attempts [OF one'] obtain R1 where
    R1: "requests w1 = requests w @ R1"
      "\<forall>p\<in>set b. coords p \<in> set R1 \<or> cacheCheck (weatherCache w) (now w) (keyOf p) \<noteq> None"
    by blast
  from Cons.prems(2) have d: "distinct (map keyOf (concat bs))"
    and disj: "keyOf ` set b \<inter> keyOf ` set (concat bs) = {}"
    by auto
  from Cons.IH [OF rest d] obtain R2 where
    R2: "requests w' = requests (?next w1) @ R2"
      "\<forall>p\<in>set (concat bs). coords p \<in> set R2
          \<or> cacheCheck (weatherCache (?next w1)) (now (?next w1)) (keyOf p) \<noteq> None"
    by blast
  have t: "now w \<le> now (?next w1)" using settleAll_now [OF one'] by simp
  have later: "coords p \<in> set (R1 @ R2) \<or> cacheCheck (weatherCache w) (now w) (keyOf p) \<noteq> None"
    if p: "p \<in> set (concat bs)" for p
  proof (cases "coords p \<in> set R2")
    case True
    then show ?thesis by simp
  next
    case False
    with R2(2) p have live: "cacheCheck (weatherCache (?next w1)) (now (?next w1)) (keyOf p) \<noteq> None"
      by blast
    from p disj have "keyOf p \<notin> keyOf ` set b" by blast
    from settleAll_other [OF one' this]
    have "weatherCache (?next w1) (keyOf p) = weatherCache w (keyOf p)" by simp
    then have "cacheCheck (weatherCache (?next w1)) (now (?next w1)) (keyOf p)
        = cacheCheck (weatherCache w) (now (?next w1)) (keyOf p)"
      by (rule cacheCheck_cong)
    with live have "cacheCheck (weatherCache w) (now (?next w1)) (keyOf p) \<noteq> None" by simp
    from cacheCheck_earlier [OF this t] show ?thesis by simp
  qed
  have "requests w' = requests w @ (R1 @ R2)" using R1(1) R2(1) by (simp split: if_splits)
  moreover have "\<forall>p\<in>set (concat (b # bs)).
      coords p \<in> set (R1 @ R2) \<or> cacheCheck (weatherCache w) (now w) (keyOf p) \<noteq> None"
    using R1(2) later by auto
  ultimately show ?case by blast
qed

subsection \<open>\<open>maxConcurrent = 0\<close>\<close>

text \<open>
  With \<open>maxConcurrent = 0\<close> the index never advances: on a non-empty list neither revision
  returns. The claims about a run therefore assume a positive \<open>maxConcurrent\<close>.
\<close>

lemma batchLoop_returns:
  assumes "batchLoop net m cb xs i s = Some y"
  shows "m = 0 \<longrightarrow> \<not> i < length xs"
  apply (rule batchLoop.raw_induct
    [where P = "\<lambda>net m cb xs i s y. m = 0 \<longrightarrow> \<not> i < length xs", OF _ assms])
  apply (fastforce simp: Let_def split: prod.splits if_splits)
  done

lemma batchLoop_zero: "i < length xs \<Longrightarrow> batchLoop net 0 cb xs i s = None"
  using batchLoop_returns [of net 0 cb xs i s] by (cases "batchLoop net 0 cb xs i s") auto

lemma batchLoop_v1_returns:
  assumes "batchLoop_v1 net m cb xs i s = Some y"
  shows "m = 0 \<longrightarrow> \<not> i < length xs"
  apply (rule batchLoop_v1.raw_induct
    [where P = "\<lambda>net m cb xs i s y. m = 0 \<longrightarrow> \<not> i < length xs", OF _ assms])
  apply (fastforce simp: Let_def split: prod.splits if_splits)
  done

lemma batchLoop_v1_zero: "i < length xs \<Longrightarrow> batchLoop_v1 net 0 cb xs i s = None"
  using batchLoop_v1_returns [of net 0 cb xs i s] by (cases "batchLoop_v1 net 0 cb xs i s") auto

lemma zero_maxConcurrent_never_returns:
  "ps \<noteq> [] \<Longrightarrow> fetchWeatherForPositions net ps 0 cb w = None
     \<and> fetchWeatherForPositions_v1 net ps 0 cb w = None"
proof -
  assume ps: "ps \<noteq> []"
  then have "keyOf ` set (deduplicated ps) \<noteq> {}" by (simp add: keys_deduplicated)
  then have "0 < length (deduplicated ps)" by auto
  with ps show ?thesis
    by (simp add: fetchWeatherForPositions_def fetchWeatherForPositions_v1_def batchLoop_zero
        batchLoop_v1_zero)
qed

section \<open>The batch fetcher: claims\<close>

subsection \<open>Empty input\<close>

text \<open>
  C8. On an empty list of positions both revisions of \<open>fetchWeatherForPositions\<close> return
  the empty map, with no call of \<open>onBatchComplete\<close>, no settled promise and the world
  untouched, for every \<open>maxConcurrent\<close>.
\<close>

theorem empty_input:
  "fetchWeatherForPositions net [] m cb w
     = Some \<lparr> weatherMap = Map.empty, callbacks = [], settled = [], state = w \<rparr>
   \<and> fetchWeatherForPositions_v1 net [] m cb w
     = Some \<lparr> weatherMap = Map.empty, callbacks = [], settled = [], state = w \<rparr>"
  by (simp add: fetchWeatherForPositions_def fetchWeatherForPositions_v1_def batchLoop.simps
        batchLoop_v1.simps deduplicated_def uniquePositions_def start_def finalMap_def)

subsection \<open>Example runs\<close>

lemma keys_nearby: "map keyOf nearby = [''1.00,2.00'', ''1.00,2.00'', ''3.00,4.00'']"
  by (simp add: nearby_def keyOf_def cacheKey_def toFixed2_def digit_def Let_def)

lemma keys_apart: "map keyOf apart = [''1.00,2.00'', ''3.00,4.00'']"
  by (simp add: apart_def keyOf_def cacheKey_def toFixed2_def digit_def Let_def)

lemma dedup_nearby: "deduplicated nearby = apart"
  by (simp add: nearby_def apart_def deduplicated_def uniquePositions_def addUnique_def keyOf_def
      cacheKey_def toFixed2_def digit_def Let_def)







lemma run_abort2:
  "map_option (\<lambda>r. (requests (state r), map (map_option fst) (settled r)))
     (fetchWeatherForPositions abortNet nearby 2 True emptyWorld)
   = Some ([(1, 2), (3, 4)], [None, Some ''3.00,4.00''])"
  apply (simp add: fetchWeatherForPositions_def dedup_nearby apart_def start_def)
  apply (simp add: batchLoop.simps emptyWorld_def completeBatch_def fetchWeatherDataAt_def
      cacheCheck_def abortNet_def partialNet_def partialPayload_def partialCurrent_def
      onResponse_def ok_def Let_def keyOf_def)
  apply (simp add: cacheKey_def toFixed2_def digit_def Let_def)
  done

lemma key34: "cacheKey 3 4 \<noteq> cacheKey 1 2"
  by (simp add: cacheKey_def toFixed2_def digit_def Let_def)

subsection \<open>Deduplication\<close>




subsection \<open>Callbacks\<close>

text \<open>
  C4. Let \<open>maxConcurrent = m\<close> be positive and \<open>onBatchComplete\<close> be supplied. The
  deduplicating revision returns, having called \<open>onBatchComplete\<close> exactly
  \<open>\<lceil>N / m\<rceil>\<close> times, where \<open>N\<close> is the number of distinct keys of the input; the union of
  the payloads is the returned map, and no key is in two payloads. The earlier revision
  does the same on an input whose \<open>N\<close> positions have pairwise different keys.
\<close>

theorem callbacks_per_chunk:
  assumes "0 < m"
  shows "(\<exists>r. fetchWeatherForPositions net ps m True w = Some r
           \<and> int (length (callbacks r)) = \<lceil>real (card (keyOf ` set ps)) / real m\<rceil>
           \<and> unionMaps (callbacks r) = weatherMap r
           \<and> (\<forall>i j. i < j \<and> j < length (callbacks r) \<longrightarrow>
                 dom (callbacks r ! i) \<inter> dom (callbacks r ! j) = {}))
       \<and> (distinct (map keyOf ps) \<longrightarrow>
           (\<exists>r. fetchWeatherForPositions_v1 net ps m True w = Some r
              \<and> int (length (callbacks r)) = \<lceil>real (length ps) / real m\<rceil>
              \<and> unionMaps (callbacks r) = weatherMap r
              \<and> (\<forall>i j. i < j \<and> j < length (callbacks r) \<longrightarrow>
                    dom (callbacks r ! i) \<inter> dom (callbacks r ! j) = {})))"
proof (intro conjI impI)
  obtain rss w' where sb: "settleBatches (settle net) 0 (slices m (deduplicated ps) 0) w = (rss, w')"
    by (cases "settleBatches (settle net) 0 (slices m (deduplicated ps) 0) w")
  note run = fetchWeatherForPositions_run [OF assms(1) sb]
  let ?r = "\<lparr> weatherMap = collect (concat rss) Map.empty,
            callbacks = (if True then map (\<lambda>rs. collect rs Map.empty) rss else []),
            settled = concat rss, state = w' \<rparr>"
  have "length rss = length (slices m (deduplicated ps) 0)"
    using run(2) by (rule list_all2_lengthD)
  then have len: "int (length (callbacks ?r)) = \<lceil>real (card (keyOf ` set ps)) / real m\<rceil>"
    using assms by (simp add: length_slices length_deduplicated ceiling_div_nat)
  have un: "unionMaps (callbacks ?r) = weatherMap ?r" by (simp add: unionMaps_collect)
  have dist: "distinct (map keyOf (concat (slices m (deduplicated ps) 0)))"
    using assms distinct_deduplicated by (simp add: concat_slices)
  have dis: "dom (callbacks ?r ! i) \<inter> dom (callbacks ?r ! j) = {}"
    if "i < j \<and> j < length (callbacks ?r)" for i j
    using disjoint_payloads [OF run(2) dist, of i j] that by simp
  from run(1) len un dis
  show "\<exists>r. fetchWeatherForPositions net ps m True w = Some r
           \<and> int (length (callbacks r)) = \<lceil>real (card (keyOf ` set ps)) / real m\<rceil>
           \<and> unionMaps (callbacks r) = weatherMap r
           \<and> (\<forall>i j. i < j \<and> j < length (callbacks r) \<longrightarrow>
                 dom (callbacks r ! i) \<inter> dom (callbacks r ! j) = {})"
    by blast
next
  assume d: "distinct (map keyOf ps)"
  obtain rss w' where sb: "settleBatches (settle_v1 net) 50 (slices m ps 0) w = (rss, w')"
    by (cases "settleBatches (settle_v1 net) 50 (slices m ps 0) w")
  note run = fetchWeatherForPositions_v1_run [OF assms(1) sb]
  let ?r = "\<lparr> weatherMap = collect (concat rss) Map.empty,
            callbacks = (if True then map (\<lambda>rs. collect rs Map.empty) rss else []),
            settled = concat rss, state = w' \<rparr>"
  have "length rss = length (slices m ps 0)"
    using run(2) by (rule list_all2_lengthD)
  then have len: "int (length (callbacks ?r)) = \<lceil>real (length ps) / real m\<rceil>"
    using assms by (simp add: length_slices ceiling_div_nat)
  have un: "unionMaps (callbacks ?r) = weatherMap ?r" by (simp add: unionMaps_collect)
  have dist: "distinct (map keyOf (concat (slices m ps 0)))"
    using assms d by (simp add: concat_slices)
  have dis: "dom (callbacks ?r ! i) \<inter> dom (callbacks ?r ! j) = {}"
    if "i < j \<and> j < length (callbacks ?r)" for i j
    using disjoint_payloads [OF run(2) dist, of i j] that by simp
  from run(1) len un dis
  show "\<exists>r. fetchWeatherForPositions_v1 net ps m True w = Some r
              \<and> int (length (callbacks r)) = \<lceil>real (length ps) / real m\<rceil>
              \<and> unionMaps (callbacks r) = weatherMap r
              \<and> (\<forall>i j. i < j \<and> j < length (callbacks r) \<longrightarrow>
                    dom (callbacks r ! i) \<inter> dom (callbacks r ! j) = {})"
    by blast
qed

theorem callbacks_per_chunk_witness:
  "(\<exists>r. fetchWeatherForPositions partialNet nearby 1 True emptyWorld = Some r
        \<and> length (callbacks r) = 2
        \<and> unionMaps (callbacks r) = weatherMap r
        \<and> dom (callbacks r ! 0) \<inter> dom (callbacks r ! 1) = {})
   \<and> (\<exists>r. fetchWeatherForPositions_v1 partialNet apart 1 True emptyWorld = Some r
        \<and> length (callbacks r) = 2
        \<and> unionMaps (callbacks r) = weatherMap r
        \<and> dom (callbacks r ! 0) \<inter> dom (callbacks r ! 1) = {})"
proof -
  have "keyOf ` set nearby = set (map keyOf nearby)" by simp
  then have c: "card (keyOf ` set nearby) = 2" unfolding keys_nearby by simp
  have d: "distinct (map keyOf apart)" unfolding keys_apart by simp
  have l: "length apart = 2" by (simp add: apart_def)
  from callbacks_per_chunk [of 1 partialNet nearby emptyWorld] c
  have a: "\<exists>r. fetchWeatherForPositions partialNet nearby 1 True emptyWorld = Some r
        \<and> length (callbacks r) = 2
        \<and> unionMaps (callbacks r) = weatherMap r
        \<and> dom (callbacks r ! 0) \<inter> dom (callbacks r ! 1) = {}"
    by auto
  from callbacks_per_chunk [of 1 partialNet apart emptyWorld] d l
  have b: "\<exists>r. fetchWeatherForPositions_v1 partialNet apart 1 True emptyWorld = Some r
        \<and> length (callbacks r) = 2
        \<and> unionMaps (callbacks r) = weatherMap r
        \<and> dom (callbacks r ! 0) \<inter> dom (callbacks r ! 1) = {}"
    by auto
  from a b show ?thesis by blast
qed

subsection \<open>Failed fetches\<close>

text \<open>
  C5, as the code has it. For every input list and every positive \<open>maxConcurrent\<close>, both
  revisions of \<open>fetchWeatherForPositions\<close> return a map (the result type has no error
  case), whatever the upstream answers. No position is given up: every position handed to
  the loop has its settled promise, the earlier revision has requested every position, and
  the caching revision has requested every deduplicated position that had no live cache
  entry at the start. The returned map holds what the promises settled to: in the
  deduplicating revision an observation is in the map under a key exactly when it is the
  non-null value of a settled promise for that key. If the upstream fails every request
  for the key \<open>k\<close> (a timeout, a network failure or a non-success status), the returned map
  has no entry for \<open>k\<close>; in the caching revision this is so when the cache holds no live
  entry for \<open>k\<close> at the start, since a live entry is returned without a fetch. And if the
  upstream gives a good answer to every request for the key of a position of the input,
  the returned map has an entry for that key, whatever fails for the other positions.
\<close>

theorem failures_absorbed:
  assumes "0 < m"
  shows "\<exists>r r1 R. fetchWeatherForPositions net ps m cb w = Some r
           \<and> fetchWeatherForPositions_v1 net ps m cb w = Some r1
           \<and> length (settled r) = length (deduplicated ps)
           \<and> length (settled r1) = length ps
           \<and> requests (state r) = requests w @ R
           \<and> (\<forall>p\<in>set (deduplicated ps).
                 coords p \<in> set R \<or> cacheCheck (weatherCache w) (now w) (keyOf p) \<noteq> None)
           \<and> requests (state r1) = requests w @ map coords ps
           \<and> (\<forall>k d. (Some (k, d) \<in> set (settled r)) = (weatherMap r k = Some d))
           \<and> (\<forall>k d. weatherMap r1 k = Some d \<longrightarrow> Some (k, d) \<in> set (settled r1))
           \<and> (\<forall>k. failing net k \<longrightarrow>
                 (cacheCheck (weatherCache w) (now w) k = None \<longrightarrow> weatherMap r k = None)
               \<and> weatherMap r1 k = None)
           \<and> (\<forall>k\<in>keyOf ` set ps. succeeding net k \<longrightarrow>
                 weatherMap r k \<noteq> None \<and> weatherMap r1 k \<noteq> None)"
proof -
  obtain rss w' where sb: "settleBatches (settle net) 0 (slices m (deduplicated ps) 0) w = (rss, w')"
    by (cases "settleBatches (settle net) 0 (slices m (deduplicated ps) 0) w")
  obtain rss1 w1 where sb1: "settleBatches (settle_v1 net) 50 (slices m ps 0) w = (rss1, w1)"
    by (cases "settleBatches (settle_v1 net) 50 (slices m ps 0) w")
  note run = fetchWeatherForPositions_run [OF assms(1) sb]
  note run1 = fetchWeatherForPositions_v1_run [OF assms(1) sb1]
  let ?r = "\<lparr> weatherMap = collect (concat rss) Map.empty,
            callbacks = (if cb then map (\<lambda>rs. collect rs Map.empty) rss else []),
            settled = concat rss, state = w' \<rparr>"
  let ?r1 = "\<lparr> weatherMap = collect (concat rss1) Map.empty,
            callbacks = (if cb then map (\<lambda>rs. collect rs Map.empty) rss1 else []),
            settled = concat rss1, state = w1 \<rparr>"
  have cs: "concat (slices m (deduplicated ps) 0) = deduplicated ps" "concat (slices m ps 0) = ps"
    using assms by (simp_all add: concat_slices)
  have l: "length (settled ?r) = length (deduplicated ps)"
    using run(3) by (simp add: answers_def)
  have l1: "length (settled ?r1) = length ps"
    using run1(3) by (simp add: answers_def)
  from settle_all_attempts [OF sb] distinct_deduplicated [of ps] obtain R where
    R: "requests w' = requests w @ R"
      "\<forall>p\<in>set (deduplicated ps).
          coords p \<in> set R \<or> cacheCheck (weatherCache w) (now w) (keyOf p) \<noteq> None"
    unfolding cs by blast
  have R1: "requests w1 = requests w @ map coords ps"
    using settle_all_v1_requests [OF sb1] by (simp only: cs)
  have iff: "(Some (k, d) \<in> set (concat rss)) = (collect (concat rss) Map.empty k = Some d)" for k d
  proof
    assume "Some (k, d) \<in> set (concat rss)"
    then have "(k, d) \<in> set (fulfilled (concat rss))" by (simp only: Some_in_fulfilled)
    with run(4) show "collect (concat rss) Map.empty k = Some d" by (rule collect_in)
  next
    assume "collect (concat rss) Map.empty k = Some d"
    from collect_Some_in [OF this] have "(k, d) \<in> set (fulfilled (concat rss))" by simp
    then show "Some (k, d) \<in> set (concat rss)" by (simp only: Some_in_fulfilled)
  qed
  have from1: "Some (k, d) \<in> set (concat rss1)" if "collect (concat rss1) Map.empty k = Some d" for k d
  proof -
    from collect_Some_in [OF that] have "(k, d) \<in> set (fulfilled (concat rss1))" by simp
    then show ?thesis by (simp only: Some_in_fulfilled)
  qed
  have f: "weatherMap ?r k = None" if "failing net k" "cacheCheck (weatherCache w) (now w) k = None" for k
    using settleBatches_failed [OF that sb] by (simp add: collect_notin)
  have f1: "weatherMap ?r1 k = None" if "failing net k" for k
    using settleBatches_v1_failed [OF that sb1] by (simp add: collect_notin)
  have g: "weatherMap ?r k \<noteq> None \<and> weatherMap ?r1 k \<noteq> None"
    if k: "k \<in> keyOf ` set ps" and s: "succeeding net k" for k
  proof -
    from k have "k \<in> keyOf ` set (concat (slices m (deduplicated ps) 0))"
      by (simp only: cs keys_deduplicated)
    from settle_all_good [OF s sb this] have "k \<in> dom (collect (concat rss) Map.empty)"
      by (simp add: dom_collect)
    moreover from k have "k \<in> keyOf ` set (concat (slices m ps 0))" by (simp only: cs)
    from settle_all_v1_good [OF s sb1 this] have "k \<in> dom (collect (concat rss1) Map.empty)"
      by (simp add: dom_collect)
    ultimately show ?thesis by (auto simp: domIff)
  qed
  have "fetchWeatherForPositions net ps m cb w = Some ?r
           \<and> fetchWeatherForPositions_v1 net ps m cb w = Some ?r1
           \<and> length (settled ?r) = length (deduplicated ps)
           \<and> length (settled ?r1) = length ps
           \<and> requests (state ?r) = requests w @ R
           \<and> (\<forall>p\<in>set (deduplicated ps).
                 coords p \<in> set R \<or> cacheCheck (weatherCache w) (now w) (keyOf p) \<noteq> None)
           \<and> requests (state ?r1) = requests w @ map coords ps
           \<and> (\<forall>k d. (Some (k, d) \<in> set (settled ?r)) = (weatherMap ?r k = Some d))
           \<and> (\<forall>k d. weatherMap ?r1 k = Some d \<longrightarrow> Some (k, d) \<in> set (settled ?r1))
           \<and> (\<forall>k. failing net k \<longrightarrow>
                 (cacheCheck (weatherCache w) (now w) k = None \<longrightarrow> weatherMap ?r k = None)
               \<and> weatherMap ?r1 k = None)
           \<and> (\<forall>k\<in>keyOf ` set ps. succeeding net k \<longrightarrow>
                 weatherMap ?r k \<noteq> None \<and> weatherMap ?r1 k \<noteq> None)"
  proof (intro conjI)
    show "fetchWeatherForPositions net ps m cb w = Some ?r" by (rule run(1))
    show "fetchWeatherForPositions_v1 net ps m cb w = Some ?r1" by (rule run1(1))
    show "length (settled ?r) = length (deduplicated ps)" by (rule l)
    show "length (settled ?r1) = length ps" by (rule l1)
    show "requests (state ?r) = requests w @ R" using R(1) by simp
    show "\<forall>p\<in>set (deduplicated ps).
        coords p \<in> set R \<or> cacheCheck (weatherCache w) (now w) (keyOf p) \<noteq> None" by (rule R(2))
    show "requests (state ?r1) = requests w @ map coords ps" using R1 by simp
    show "\<forall>k d. (Some (k, d) \<in> set (settled ?r)) = (weatherMap ?r k = Some d)"
      using iff by simp
    show "\<forall>k d. weatherMap ?r1 k = Some d \<longrightarrow> Some (k, d) \<in> set (settled ?r1)"
      using from1 by simp
    show "\<forall>k. failing net k \<longrightarrow>
                 (cacheCheck (weatherCache w) (now w) k = None \<longrightarrow> weatherMap ?r k = None)
               \<and> weatherMap ?r1 k = None"
      using f f1 by blast
    show "\<forall>k\<in>keyOf ` set ps. succeeding net k \<longrightarrow>
                 weatherMap ?r k \<noteq> None \<and> weatherMap ?r1 k \<noteq> None"
      using g by blast
  qed
  then show ?thesis by (intro exI)
qed

theorem failures_absorbed_witness:
  "(\<exists>r r1 R. fetchWeatherForPositions abortNet nearby 2 True emptyWorld = Some r
          \<and> fetchWeatherForPositions_v1 abortNet nearby 2 True emptyWorld = Some r1
          \<and> length (settled r) = 2 \<and> length (settled r1) = 3
          \<and> requests (state r) = requests emptyWorld @ R \<and> (3, 4) \<in> set R
          \<and> requests (state r1) = requests emptyWorld @ map coords nearby
          \<and> weatherMap r (cacheKey 1 2) = None \<and> weatherMap r1 (cacheKey 1 2) = None
          \<and> weatherMap r (cacheKey 3 4) \<noteq> None \<and> weatherMap r1 (cacheKey 3 4) \<noteq> None)
   \<and> map_option (\<lambda>r. (requests (state r), map (map_option fst) (settled r)))
        (fetchWeatherForPositions abortNet nearby 2 True emptyWorld)
       = Some ([(1, 2), (3, 4)], [None, Some ''3.00,4.00''])"
proof -
  have pos: "0 < (2::nat)" by simp
  have f: "failing abortNet (cacheKey 1 2)"
    by (simp add: failing_def abortNet_def failed_def)
  have s: "succeeding abortNet (cacheKey 3 4)"
    using key34
    by (simp add: succeeding_def abortNet_def partialNet_def partialPayload_def partialCurrent_def
        good_def ok_def)
  have k: "cacheKey 3 4 \<in> keyOf ` set nearby"
    by (simp add: nearby_def keyOf_def)
  have c: "cacheCheck (weatherCache emptyWorld) (now emptyWorld) k = None" for k
    by (simp add: emptyWorld_def cacheCheck_def)
  have l: "length (deduplicated nearby) = 2" "length nearby = 3"
    unfolding dedup_nearby by (simp_all add: apart_def nearby_def)
  have p: "\<lparr> latitude = 3, longitude = 4 \<rparr> \<in> set (deduplicated nearby)"
    unfolding dedup_nearby by (simp add: apart_def)
  from failures_absorbed [OF pos, of abortNet nearby True emptyWorld]
  obtain r r1 R where
    a: "fetchWeatherForPositions abortNet nearby 2 True emptyWorld = Some r"
       "fetchWeatherForPositions_v1 abortNet nearby 2 True emptyWorld = Some r1"
       "length (settled r) = length (deduplicated nearby)"
       "length (settled r1) = length nearby"
       "requests (state r) = requests emptyWorld @ R"
       "\<forall>p\<in>set (deduplicated nearby).
           coords p \<in> set R \<or> cacheCheck (weatherCache emptyWorld) (now emptyWorld) (keyOf p) \<noteq> None"
       "requests (state r1) = requests emptyWorld @ map coords nearby"
       "\<forall>k. failing abortNet k \<longrightarrow>
           (cacheCheck (weatherCache emptyWorld) (now emptyWorld) k = None \<longrightarrow> weatherMap r k = None)
           \<and> weatherMap r1 k = None"
       "\<forall>k\<in>keyOf ` set nearby. succeeding abortNet k \<longrightarrow>
           weatherMap r k \<noteq> None \<and> weatherMap r1 k \<noteq> None"
    by (elim exE conjE)
  from a(6) p c have in_R: "(3, 4) \<in> set R" by (auto simp: coords_def)
  from a(8) f c have n: "weatherMap r (cacheKey 1 2) = None" "weatherMap r1 (cacheKey 1 2) = None"
    by simp_all
  from a(9) k s have y: "weatherMap r (cacheKey 3 4) \<noteq> None" "weatherMap r1 (cacheKey 3 4) \<noteq> None"
    by blast+
  have "fetchWeatherForPositions abortNet nearby 2 True emptyWorld = Some r
          \<and> fetchWeatherForPositions_v1 abortNet nearby 2 True emptyWorld = Some r1
          \<and> length (settled r) = 2 \<and> length (settled r1) = 3
          \<and> requests (state r) = requests emptyWorld @ R \<and> (3, 4) \<in> set R
          \<and> requests (state r1) = requests emptyWorld @ map coords nearby
          \<and> weatherMap r (cacheKey 1 2) = None \<and> weatherMap r1 (cacheKey 1 2) = None
          \<and> weatherMap r (cacheKey 3 4) \<noteq> None \<and> weatherMap r1 (cacheKey 3 4) \<noteq> None"
    using a(1,2,3,4,5,7) l in_R n y by (intro conjI) simp_all
  then have e: "\<exists>r r1 R. fetchWeatherForPositions abortNet nearby 2 True emptyWorld = Some r
          \<and> fetchWeatherForPositions_v1 abortNet nearby 2 True emptyWorld = Some r1
          \<and> length (settled r) = 2 \<and> length (settled r1) = 3
          \<and> requests (state r) = requests emptyWorld @ R \<and> (3, 4) \<in> set R
          \<and> requests (state r1) = requests emptyWorld @ map coords nearby
          \<and> weatherMap r (cacheKey 1 2) = None \<and> weatherMap r1 (cacheKey 1 2) = None
          \<and> weatherMap r (cacheKey 3 4) \<noteq> None \<and> weatherMap r1 (cacheKey 3 4) \<noteq> None"
    by (intro exI)
  from e run_abort2 show ?thesis by (intro conjI)
qed

text \<open>
  C5 as stated fails for \<open>maxConcurrent = 0\<close>: on a non-empty list the index never
  advances and neither revision returns.
\<close>

theorem zero_never_returns_example:
  "fetchWeatherForPositions partialNet apart 0 True emptyWorld = None
   \<and> fetchWeatherForPositions_v1 partialNet apart 0 True emptyWorld = None"
  by (rule zero_maxConcurrent_never_returns) (simp add: apart_def)

end
